theory Spec2Isabelle
  imports Main
begin

section \<open>JavaScript values, truthiness and the argument serialisation\<close>

text \<open>
  The wrapped computation \<open>f\<close> takes arguments of a type \<open>S\<close> and produces a value of a
  type \<open>T\<close>; both are JavaScript values.  The code inspects such a value in two ways only:
  by its truthiness (\<^verbatim>\<open>cached && cached.value\<close>, \<^verbatim>\<open>value || promise\<close>) and through
  \<^verbatim>\<open>JSON.stringify\<close>.  The numbers of the model are the integers, negative zero,
  \<^verbatim>\<open>NaN\<close> and the two infinities; numbers with a fraction are left out.  A string is a
  list of code units below 256.  An object is a plain object, given by its own enumerable
  properties in the order in which they are enumerated; functions, symbols and objects with
  a \<^verbatim>\<open>toJSON\<close> method are left out.  The \<^verbatim>\<open>NaN\<close> of \<^verbatim>\<open>Date.now() - undefined\<close> is handled
  in \<open>isExpired\<close>.
\<close>

datatype jsval =
    JUndefined
  | JNull
  | JBool bool
  | JNum int
  | JNegZero
  | JNaN
  | JInfinity
  | JNegInfinity
  | JStr string
  | JArr "jsval list"
  | JObj "(string \<times> jsval) list"

fun truthy :: "jsval \<Rightarrow> bool" where
  "truthy JUndefined = False"
| "truthy JNull = False"
| "truthy (JBool b) = b"
| "truthy (JNum n) = (n \<noteq> 0)"
| "truthy JNegZero = False"
| "truthy JNaN = False"
| "truthy JInfinity = True"
| "truthy JNegInfinity = True"
| "truthy (JStr s) = (s \<noteq> [])"
| "truthy (JArr xs) = True"
| "truthy (JObj kvs) = True"

fun show_nat :: "nat \<Rightarrow> string" where
  "show_nat n =
     (if n < 10 then [''0123456789'' ! n]
      else show_nat (n div 10) @ [''0123456789'' ! (n mod 10)])"

declare show_nat.simps [simp del]

definition show_int :: "int \<Rightarrow> string" where
  "show_int i = (if i < 0 then CHR ''-'' # show_nat (nat (- i)) else show_nat (nat i))"

definition escape_char :: "char \<Rightarrow> string" where
  "escape_char c =
     (if c = CHR 0x22 then [CHR 0x5C, CHR 0x22]
      else if c = CHR 0x5C then [CHR 0x5C, CHR 0x5C]
      else if c = CHR 0x08 then [CHR 0x5C, CHR ''b'']
      else if c = CHR 0x0C then [CHR 0x5C, CHR ''f'']
      else if c = CHR 0x0A then [CHR 0x5C, CHR ''n'']
      else if c = CHR 0x0D then [CHR 0x5C, CHR ''r'']
      else if c = CHR 0x09 then [CHR 0x5C, CHR ''t'']
      else if (of_char c :: nat) < 32 then
        [CHR 0x5C, CHR ''u'', CHR ''0'', CHR ''0'',
         ''0123456789abcdef'' ! (of_char c div 16), ''0123456789abcdef'' ! (of_char c mod 16)]
      else [c])"

definition quote :: "string \<Rightarrow> string" where
  "quote s = CHR 0x22 # concat (map escape_char s) @ [CHR 0x22]"

fun join :: "string list \<Rightarrow> string" where
  "join [] = []"
| "join [x] = x"
| "join (x # y # ys) = x @ CHR '','' # join (y # ys)"

text \<open>
  \<^verbatim>\<open>JSON.stringify\<close> of an array element: \<^verbatim>\<open>undefined\<close> inside an array, \<^verbatim>\<open>NaN\<close> and the
  infinities are written as \<^verbatim>\<open>null\<close>, negative zero as \<^verbatim>\<open>0\<close>; a property of an object
  whose value is \<^verbatim>\<open>undefined\<close> is left out.
\<close>

fun stringify_element :: "jsval \<Rightarrow> string" where
  "stringify_element JUndefined = ''null''"
| "stringify_element JNull = ''null''"
| "stringify_element (JBool b) = (if b then ''true'' else ''false'')"
| "stringify_element (JNum n) = show_int n"
| "stringify_element JNegZero = ''0''"
| "stringify_element JNaN = ''null''"
| "stringify_element JInfinity = ''null''"
| "stringify_element JNegInfinity = ''null''"
| "stringify_element (JStr s) = quote s"
| "stringify_element (JArr xs) = CHR ''['' # join (map stringify_element xs) @ [CHR '']'']"
| "stringify_element (JObj kvs) =
     CHR ''{'' # join (map (\<lambda>(k, v). quote k @ CHR '':'' # stringify_element v)
                        (filter (\<lambda>(k, v). v \<noteq> JUndefined) kvs)) @ [CHR ''}'']"

text \<open>\<^verbatim>\<open>JSON.stringify(args)\<close>, where \<^verbatim>\<open>args\<close> is the rest-parameter array of a call.\<close>

definition JSON_stringify :: "jsval list \<Rightarrow> string" where
  "JSON_stringify args = stringify_element (JArr args)"




section \<open>Promises and failures\<close>

text \<open>
  A failure is whatever a rejected promise of a collaborator carries: the wrapped
  computation, the lock service or the store.
\<close>

datatype failure = ComputationFailure | LockFailure | StoreFailure | ParseFailure

datatype pstate = Pending | Resolved jsval | Rejected failure

text \<open>
  Settling a promise: only a pending promise changes; \<^verbatim>\<open>resolve\<close> on a settled promise
  does nothing.
\<close>

definition settle :: "pstate list \<Rightarrow> nat \<Rightarrow> pstate \<Rightarrow> pstate list" where
  "settle ps p st = (if p < length ps \<and> ps ! p = Pending then ps[p := st] else ps)"

text \<open>
  \<^verbatim>\<open>isExpired(at, timeMs)\<close> is \<^verbatim>\<open>Date.now() - at > timeMs\<close>.  The clock reading is the
  first argument.  \<open>at\<close> is \<open>None\<close> when the field is \<^verbatim>\<open>undefined\<close>: then the difference
  is \<^verbatim>\<open>NaN\<close> and every comparison with \<^verbatim>\<open>NaN\<close> is false.
\<close>

definition isExpired :: "int \<Rightarrow> int option \<Rightarrow> int \<Rightarrow> bool" where
  "isExpired now at timeMs = (case at of None \<Rightarrow> False | Some a \<Rightarrow> now - a > timeMs)"

section \<open>The memory cache\<close>

text \<open>
  One entry of \<^verbatim>\<open>caches\<close>: \<^verbatim>\<open>{ at?: number; promise?: Promise<T>; value?: T }\<close>.
  A field that is absent (or \<^verbatim>\<open>null\<close>, for \<^verbatim>\<open>promise\<close>) is \<open>None\<close>, respectively
  \<open>JUndefined\<close>.  A promise is named by its index in the table of promises.
  An entry is created once per key and mutated in place afterwards, never replaced or
  deleted, so the object captured by an executor is the one \<^verbatim>\<open>caches[key]\<close> holds.
\<close>

record entry =
  e_at :: "int option"
  e_promise :: "nat option"
  e_value :: jsval

text \<open>
  An executor suspended at \<^verbatim>\<open>await f(...args)\<close>.  Before suspending it has evaluated
  \<^verbatim>\<open>hasOldCache\<close> and \<^verbatim>\<open>Date.now()\<close> (the first property of the object literal).
\<close>

record computation =
  c_key :: string
  c_args :: "jsval list"
  c_at :: int
  c_hasOldCache :: bool

text \<open>
  The state of one \<^verbatim>\<open>memoryCache(f, timeMs)\<close> closure and of its environment: the
  clock, the promises created by \<^verbatim>\<open>new Promise\<close>, the suspended executors (keyed by
  the promise they were created for), the log of the invocations of \<open>f\<close>, and the number
  of rejections nobody handles.
\<close>

record mstate =
  caches :: "string \<rightharpoonup> entry"
  mclock :: int
  promises :: "pstate list"
  awaiting :: "nat \<rightharpoonup> computation"
  invocations :: "jsval list list"
  unhandled :: nat

text \<open>
  What the \<^verbatim>\<open>async\<close> wrapper returns: a plain value (its promise is resolved with it at
  once) or a promise that its own promise then follows.
\<close>

datatype ret = Returned jsval | Following nat

definition outcome :: "mstate \<Rightarrow> ret \<Rightarrow> pstate" where
  "outcome s r =
     (case r of
        Returned v \<Rightarrow> Resolved v
      | Following p \<Rightarrow> (if p < length (promises s) then promises s ! p else Pending))"

text \<open>
  \<^verbatim>\<open>cached.promise = new Promise(async resolve => { ... })\<close>, up to the suspension at
  \<^verbatim>\<open>await f(...args)\<close>: the old value, when truthy, resolves the new promise at once;
  \<open>f\<close> is invoked; the new promise is stored in the entry and returned.
\<close>

definition executor :: "mstate \<Rightarrow> string \<Rightarrow> entry \<Rightarrow> jsval list \<Rightarrow> ret \<times> mstate" where
  "executor s key cached args =
     (let hasOldCache = truthy (e_value cached);
          p = length (promises s)
      in (Following p,
          s\<lparr>promises := promises s @ [if hasOldCache then Resolved (e_value cached) else Pending],
            awaiting := (awaiting s)(p \<mapsto>
               \<lparr>c_key = key, c_args = args, c_at = mclock s, c_hasOldCache = hasOldCache\<rparr>),
            invocations := invocations s @ [args],
            caches := (caches s)(key \<mapsto> cached\<lparr>e_promise := Some p\<rparr>)\<rparr>))"

text \<open>One call of the function that \<^verbatim>\<open>memoryCache(f, timeMs)\<close> returns.\<close>

definition memoryCache :: "int \<Rightarrow> mstate \<Rightarrow> jsval list \<Rightarrow> ret \<times> mstate" where
  "memoryCache timeMs s args =
     (let key = JSON_stringify args in
      case caches s key of
        Some cached \<Rightarrow>
          if \<not> isExpired (mclock s) (e_at cached) timeMs then (Returned (e_value cached), s)
          else (case e_promise cached of
                  Some p \<Rightarrow>
                    (if truthy (e_value cached) then Returned (e_value cached) else Following p, s)
                | None \<Rightarrow> executor s key cached args)
      | None \<Rightarrow>
          executor s key \<lparr>e_at = None, e_promise = None, e_value = JUndefined\<rparr> args)"

text \<open>
  The executor resumes when the promise of \<open>f\<close> is fulfilled with \<open>v\<close>:
  \<^verbatim>\<open>Object.assign(cached, { at, value: v, promise: null })\<close>, then
  \<^verbatim>\<open>if (!hasOldCache) resolve(cached.value)\<close>.
\<close>

definition f_fulfilled :: "mstate \<Rightarrow> nat \<Rightarrow> jsval \<Rightarrow> mstate" where
  "f_fulfilled s p v =
     (case awaiting s p of
        None \<Rightarrow> s
      | Some c \<Rightarrow>
          s\<lparr>caches := (caches s)(c_key c \<mapsto> \<lparr>e_at = Some (c_at c), e_promise = None, e_value = v\<rparr>),
            awaiting := (awaiting s)(p := None),
            promises := (if c_hasOldCache c then promises s else settle (promises s) p (Resolved v))\<rparr>)"

text \<open>
  When the promise of \<open>f\<close> is rejected, the \<^verbatim>\<open>await\<close> throws inside the executor: the
  promise of the executor itself is rejected, which nobody observes.  Nothing is assigned
  and \<^verbatim>\<open>resolve\<close> is not called.
\<close>

definition f_rejected :: "mstate \<Rightarrow> nat \<Rightarrow> mstate" where
  "f_rejected s p =
     (case awaiting s p of
        None \<Rightarrow> s
      | Some c \<Rightarrow> s\<lparr>awaiting := (awaiting s)(p := None), unhandled := unhandled s + 1\<rparr>)"

text \<open>
  What can happen to the closure: a call, the settling of a promise of \<open>f\<close>, the passing
  of time.
\<close>

datatype mevent =
    Call "jsval list"
  | Fulfil nat jsval
  | Reject nat
  | Tick nat

fun mstep :: "int \<Rightarrow> mstate \<Rightarrow> mevent \<Rightarrow> mstate" where
  "mstep timeMs s (Call args) = snd (memoryCache timeMs s args)"
| "mstep timeMs s (Fulfil p v) = f_fulfilled s p v"
| "mstep timeMs s (Reject p) = f_rejected s p"
| "mstep timeMs s (Tick n) = s\<lparr>mclock := mclock s + int n\<rparr>"

definition mrun :: "int \<Rightarrow> mstate \<Rightarrow> mevent list \<Rightarrow> mstate" where
  "mrun timeMs s evs = foldl (mstep timeMs) s evs"

definition minit :: "int \<Rightarrow> mstate" where
  "minit t0 =
     \<lparr>caches = Map.empty, mclock = t0, promises = [], awaiting = Map.empty,
      invocations = [], unhandled = 0\<rparr>"

section \<open>The distributed cache\<close>

subsection \<open>The store and the lock service\<close>

text \<open>
  The store holds JSON texts.  The code inspects a text it has read in two ways only: by
  its truthiness (\<^verbatim>\<open>if (result)\<close>) and through \<^verbatim>\<open>JSON.parse\<close> followed by the reads of
  \<^verbatim>\<open>.at\<close> and \<^verbatim>\<open>.value\<close>.  The model keeps for each key what that inspection yields:
  \<open>Blank\<close> is the empty text (falsy), \<open>Malformed\<close> a text on which \<^verbatim>\<open>JSON.parse\<close> throws,
  \<open>NullJson\<close> the text \<^verbatim>\<open>null\<close> (reading \<^verbatim>\<open>.at\<close> of it throws), and \<open>Parsed at v\<close> any
  other text, with the two fields read from it: \<open>v\<close> is its \<^verbatim>\<open>.value\<close>, and \<open>at\<close> is the
  number that \<^verbatim>\<open>.at\<close> counts as in \<^verbatim>\<open>Date.now() - cached.at\<close>, or \<open>None\<close> when it counts as
  \<^verbatim>\<open>NaN\<close> (a missing field does).
\<close>

datatype stored = Blank | Malformed | NullJson | Parsed "int option" jsval

text \<open>
  What \<^verbatim>\<open>JSON.parse(JSON.stringify({ at, value })).value\<close> is: a property whose value is
  \<^verbatim>\<open>undefined\<close> is left out, at any depth; \<^verbatim>\<open>undefined\<close> inside an array, \<^verbatim>\<open>NaN\<close> and the
  infinities come back as \<^verbatim>\<open>null\<close>, and negative zero as zero.
\<close>

fun reparse_element :: "jsval \<Rightarrow> jsval" where
  "reparse_element JUndefined = JNull"
| "reparse_element JNegZero = JNum 0"
| "reparse_element JNaN = JNull"
| "reparse_element JInfinity = JNull"
| "reparse_element JNegInfinity = JNull"
| "reparse_element (JArr xs) = JArr (map reparse_element xs)"
| "reparse_element (JObj kvs) =
     JObj (map (\<lambda>(k, v). (k, reparse_element v)) (filter (\<lambda>(k, v). v \<noteq> JUndefined) kvs))"
| "reparse_element v = v"

definition reparse :: "jsval \<Rightarrow> jsval" where
  "reparse v = (if v = JUndefined then JUndefined else reparse_element v)"

text \<open>
  The stages of one run of the executor in \<^verbatim>\<open>renewRedisCache\<close>: suspended at
  \<^verbatim>\<open>await redlock.lock(...)\<close>, at \<^verbatim>\<open>await f(...args)\<close>, at \<^verbatim>\<open>await redis.set(...)\<close>
  (with the value and the \<^verbatim>\<open>Date.now()\<close> of the record being written), run to its end,
  or stopped by a rejection.
\<close>

datatype stage = Locking | Computing | Writing jsval int | Finished | Aborted failure

text \<open>
  \<open>r_lock\<close> is the \<^verbatim>\<open>lock\<close> the executor holds (the time its lease expires).  \<open>r_waiter\<close> is
  the promise of the call that awaits this renewal, on the cold path of \<^verbatim>\<open>redisCache\<close>
  (\<^verbatim>\<open>resolve(await renewRedisCache(key, f, timeMs)(...args))\<close>); the stale path awaits
  nothing.
\<close>

record renewal =
  r_key :: string
  r_args :: "jsval list"
  r_stage :: stage
  r_lock :: "int option"
  r_waiter :: "nat option"

text \<open>
  The store, the locks (the holder and the expiry of the lease, by lock name), the
  clock, the promise returned by each call, the calls suspended at
  \<^verbatim>\<open>await redis.get(key)\<close>, the renewals, the invocations of \<open>f\<close>, and the number of
  rejections nobody handles.
\<close>

record rstate =
  store :: "string \<rightharpoonup> stored"
  locks :: "string \<rightharpoonup> nat \<times> int"
  rclock :: int
  callers :: "pstate list"
  reading :: "nat \<rightharpoonup> jsval list"
  renewals :: "renewal list"
  finvocations :: "jsval list list"
  runhandled :: nat

text \<open>Modelled from the spec: the lock service (\<^verbatim>\<open>redlock\<close>, set up in \<^verbatim>\<open>./redis\<close>, which
  is not among the sources).  A lock is a named, leased token, owned exclusively by its
  holder until it is released or its lease expires: it can be acquired when nobody holds
  it or the holder's lease has expired.\<close>

definition lock_available :: "rstate \<Rightarrow> string \<Rightarrow> bool" where
  "lock_available s name =
     (case locks s name of None \<Rightarrow> True | Some (holder, expiry) \<Rightarrow> expiry \<le> rclock s)"

text \<open>Modelled from the spec: \<^verbatim>\<open>acquire(name, leaseMs)\<close> of the lock service; the new holder
  owns the lock until the clock reaches the end of the lease.\<close>

definition acquire :: "rstate \<Rightarrow> string \<Rightarrow> nat \<Rightarrow> int \<Rightarrow> rstate" where
  "acquire s name holder leaseMs = s\<lparr>locks := (locks s)(name \<mapsto> (holder, rclock s + leaseMs))\<rparr>"

text \<open>Modelled from the spec: \<^verbatim>\<open>Lock.release()\<close> of the lock service; a release by anyone
  but the holder changes nothing.\<close>

definition release :: "rstate \<Rightarrow> string \<Rightarrow> nat \<Rightarrow> rstate" where
  "release s name holder =
     (case locks s name of
        None \<Rightarrow> s
      | Some (h, expiry) \<Rightarrow> if h = holder then s\<lparr>locks := (locks s)(name := None)\<rparr> else s)"

text \<open>Modelled from the spec: \<^verbatim>\<open>get(key)\<close> of the key-value store (\<^verbatim>\<open>redis\<close>, set up in
  \<^verbatim>\<open>./redis\<close>); it yields the text under the key, or nothing.\<close>

definition redis_get :: "rstate \<Rightarrow> string \<Rightarrow> stored option" where
  "redis_get s key = store s key"

text \<open>Modelled from the spec: \<^verbatim>\<open>set(key, value)\<close> of the key-value store; it replaces the
  text under the key.\<close>

definition redis_set :: "rstate \<Rightarrow> string \<Rightarrow> stored \<Rightarrow> rstate" where
  "redis_set s key txt = s\<lparr>store := (store s)(key \<mapsto> txt)\<rparr>"

subsection \<open>The renewal\<close>

definition lock_name :: "string \<Rightarrow> string" where
  "lock_name key = key @ ''-lock''"

definition lease_ms :: int where
  "lease_ms = 1000 * 60 * 3"

text \<open>
  \<^verbatim>\<open>renewRedisCache(key, f, timeMs)(...args)\<close>: the executor starts and suspends at the
  request for the lock.
\<close>

definition renewRedisCache :: "rstate \<Rightarrow> string \<Rightarrow> jsval list \<Rightarrow> nat option \<Rightarrow> rstate" where
  "renewRedisCache s key args waiter =
     s\<lparr>renewals := renewals s @
          [\<lparr>r_key = key, r_args = args, r_stage = Locking, r_lock = None, r_waiter = waiter\<rparr>]\<rparr>"

definition set_stage :: "rstate \<Rightarrow> nat \<Rightarrow> stage \<Rightarrow> rstate" where
  "set_stage s r st = s\<lparr>renewals := (renewals s)[r := (renewals s ! r)\<lparr>r_stage := st\<rparr>]\<rparr>"

definition abort :: "rstate \<Rightarrow> nat \<Rightarrow> failure \<Rightarrow> rstate" where
  "abort s r e = (set_stage s r (Aborted e))\<lparr>runhandled := runhandled s + 1\<rparr>"

text \<open>The lock is granted: the executor goes on to invoke \<open>f\<close>.\<close>

definition lock_granted :: "rstate \<Rightarrow> nat \<Rightarrow> rstate" where
  "lock_granted s r =
     (if r < length (renewals s) \<and> r_stage (renewals s ! r) = Locking
         \<and> lock_available s (lock_name (r_key (renewals s ! r)))
      then
        (let rn = renewals s ! r;
             s1 = acquire s (lock_name (r_key rn)) r lease_ms
         in s1\<lparr>renewals := (renewals s1)[r := rn\<lparr>r_stage := Computing,
                                                   r_lock := Some (rclock s + lease_ms)\<rparr>],
               finvocations := finvocations s1 @ [r_args rn]\<rparr>)
      else s)"

definition lock_error :: "rstate \<Rightarrow> nat \<Rightarrow> rstate" where
  "lock_error s r =
     (if r < length (renewals s) \<and> r_stage (renewals s ! r) = Locking
      then abort s r LockFailure else s)"

text \<open>
  \<open>f\<close> is fulfilled with \<open>v\<close>: \<^verbatim>\<open>redis.set(key, JSON.stringify({ at: Date.now(), value }))\<close>
  is issued.
\<close>

definition f_done :: "rstate \<Rightarrow> nat \<Rightarrow> jsval \<Rightarrow> rstate" where
  "f_done s r v =
     (if r < length (renewals s) \<and> r_stage (renewals s ! r) = Computing
      then set_stage s r (Writing v (rclock s)) else s)"

definition f_failed :: "rstate \<Rightarrow> nat \<Rightarrow> rstate" where
  "f_failed s r =
     (if r < length (renewals s) \<and> r_stage (renewals s ! r) = Computing
      then abort s r ComputationFailure else s)"

text \<open>
  The write is done: \<^verbatim>\<open>lock.unlock()\<close>, then \<^verbatim>\<open>resolve(value)\<close>, which on the cold path
  resolves the promise of the waiting call.
\<close>

definition set_done :: "rstate \<Rightarrow> nat \<Rightarrow> rstate" where
  "set_done s r =
     (if r < length (renewals s) then
        (case r_stage (renewals s ! r) of
           Writing v a \<Rightarrow>
             (let rn = renewals s ! r;
                  s1 = redis_set s (r_key rn) (Parsed (Some a) (reparse v));
                  s2 = release s1 (lock_name (r_key rn)) r;
                  s3 = set_stage s2 r Finished
              in case r_waiter rn of
                   None \<Rightarrow> s3
                 | Some c \<Rightarrow> s3\<lparr>callers := settle (callers s3) c (Resolved v)\<rparr>)
         | _ \<Rightarrow> s)
      else s)"

definition set_error :: "rstate \<Rightarrow> nat \<Rightarrow> rstate" where
  "set_error s r =
     (if r < length (renewals s) then
        (case r_stage (renewals s ! r) of
           Writing v a \<Rightarrow> abort s r StoreFailure
         | _ \<Rightarrow> s)
      else s)"

subsection \<open>The call\<close>

definition redis_key :: "string \<Rightarrow> jsval list \<Rightarrow> string" where
  "redis_key cacheKey args = cacheKey @ JSON_stringify args"

text \<open>A call of the function that \<^verbatim>\<open>redisCache\<close> returns suspends at \<^verbatim>\<open>await redis.get(key)\<close>.\<close>

definition redisCache_call :: "rstate \<Rightarrow> jsval list \<Rightarrow> rstate" where
  "redisCache_call s args =
     s\<lparr>callers := callers s @ [Pending],
       reading := (reading s)(length (callers s) \<mapsto> args)\<rparr>"

text \<open>
  The call resumes with the text read.  The text is the one in the store at this moment.
\<close>

definition redisCache_resume :: "string \<Rightarrow> int \<Rightarrow> rstate \<Rightarrow> nat \<Rightarrow> rstate" where
  "redisCache_resume cacheKey timeMs s c =
     (case reading s c of
        None \<Rightarrow> s
      | Some args \<Rightarrow>
          (let key = redis_key cacheKey args;
               s0 = s\<lparr>reading := (reading s)(c := None)\<rparr>
           in case redis_get s key of
                Some (Parsed at v) \<Rightarrow>
                  (let s1 = (if isExpired (rclock s) at timeMs
                             then renewRedisCache s0 key args None else s0)
                   in s1\<lparr>callers := settle (callers s1) c (Resolved v)\<rparr>)
              | Some Malformed \<Rightarrow> s0\<lparr>callers := settle (callers s0) c (Rejected ParseFailure)\<rparr>
              | Some NullJson \<Rightarrow> s0\<lparr>callers := settle (callers s0) c (Rejected ParseFailure)\<rparr>
              | Some Blank \<Rightarrow> renewRedisCache s0 key args (Some c)
              | None \<Rightarrow> renewRedisCache s0 key args (Some c)))"

definition redisCache_get_error :: "rstate \<Rightarrow> nat \<Rightarrow> rstate" where
  "redisCache_get_error s c =
     (case reading s c of
        None \<Rightarrow> s
      | Some args \<Rightarrow>
          s\<lparr>reading := (reading s)(c := None),
            callers := settle (callers s) c (Rejected StoreFailure)\<rparr>)"

datatype revent =
    RCall "jsval list"
  | GetReply nat
  | GetError nat
  | LockGranted nat
  | LockError nat
  | FFulfil nat jsval
  | FReject nat
  | SetReply nat
  | SetError nat
  | RTick nat

fun rstep :: "string \<Rightarrow> int \<Rightarrow> rstate \<Rightarrow> revent \<Rightarrow> rstate" where
  "rstep cacheKey timeMs s (RCall args) = redisCache_call s args"
| "rstep cacheKey timeMs s (GetReply c) = redisCache_resume cacheKey timeMs s c"
| "rstep cacheKey timeMs s (GetError c) = redisCache_get_error s c"
| "rstep cacheKey timeMs s (LockGranted r) = lock_granted s r"
| "rstep cacheKey timeMs s (LockError r) = lock_error s r"
| "rstep cacheKey timeMs s (FFulfil r v) = f_done s r v"
| "rstep cacheKey timeMs s (FReject r) = f_failed s r"
| "rstep cacheKey timeMs s (SetReply r) = set_done s r"
| "rstep cacheKey timeMs s (SetError r) = set_error s r"
| "rstep cacheKey timeMs s (RTick n) = s\<lparr>rclock := rclock s + int n\<rparr>"

definition rrun :: "string \<Rightarrow> int \<Rightarrow> rstate \<Rightarrow> revent list \<Rightarrow> rstate" where
  "rrun cacheKey timeMs s evs = foldl (rstep cacheKey timeMs) s evs"

text \<open>The initial state: any clock reading and any content of the store.\<close>

definition rinit :: "int \<Rightarrow> (string \<rightharpoonup> stored) \<Rightarrow> rstate" where
  "rinit t0 st =
     \<lparr>store = st, locks = Map.empty, rclock = t0, callers = [], reading = Map.empty,
      renewals = [], finvocations = [], runhandled = 0\<rparr>"

section \<open>Predicates on states\<close>

text \<open>The invocations of \<open>f\<close> whose arguments have the key \<open>k\<close>.\<close>

definition key_invocations :: "mstate \<Rightarrow> string \<Rightarrow> jsval list list" where
  "key_invocations s k = filter (\<lambda>a. JSON_stringify a = k) (invocations s)"

text \<open>
  A suspended executor is tracked by the entry of its key: the entry holds its promise,
  \<^verbatim>\<open>hasOldCache\<close> is the truthiness of the entry's value, and the promise is pending when
  there was no old value.
\<close>

definition tracked :: "mstate \<Rightarrow> nat \<Rightarrow> computation \<Rightarrow> bool" where
  "tracked s p c \<longleftrightarrow>
     p < length (promises s) \<and>
     (case caches s (c_key c) of
        None \<Rightarrow> False
      | Some e \<Rightarrow> e_promise e = Some p \<and> c_hasOldCache c = truthy (e_value e)) \<and>
     (\<not> c_hasOldCache c \<longrightarrow> promises s ! p = Pending)"

text \<open>
  The invariant of the memory cache: every suspended executor is tracked, and an entry
  without \<^verbatim>\<open>at\<close> has no value.
\<close>

definition minv :: "mstate \<Rightarrow> bool" where
  "minv s \<longleftrightarrow>
     (\<forall>p c. awaiting s p = Some c \<longrightarrow> tracked s p c) \<and>
     (\<forall>k e. caches s k = Some e \<longrightarrow> e_at e = None \<longrightarrow> e_value e = JUndefined)"

text \<open>
  A key is dead when its entry carries a promise, the executor of that promise is gone,
  and no other executor works for the key.
\<close>

definition dead :: "mstate \<Rightarrow> string \<Rightarrow> entry \<Rightarrow> nat \<Rightarrow> bool" where
  "dead s k e p \<longleftrightarrow>
     caches s k = Some e \<and> e_promise e = Some p \<and> p < length (promises s) \<and>
     awaiting s p = None \<and> (\<forall>q c. awaiting s q = Some c \<longrightarrow> c_key c \<noteq> k)"

text \<open>A renewal is in its critical section from the grant of the lock to the end of its write.\<close>

definition in_critical :: "renewal \<Rightarrow> bool" where
  "in_critical rn = (case r_stage rn of Computing \<Rightarrow> True | Writing v a \<Rightarrow> True | _ \<Rightarrow> False)"

text \<open>
  The invariant of the locks: a renewal in its critical section holds the lock of its key,
  unless its lease has expired.
\<close>

definition linv :: "rstate \<Rightarrow> bool" where
  "linv s \<longleftrightarrow>
     (\<forall>r < length (renewals s). in_critical (renewals s ! r) \<longrightarrow>
        (\<exists>l. r_lock (renewals s ! r) = Some l \<and>
             (locks s (lock_name (r_key (renewals s ! r))) = Some (r, l) \<or> l \<le> rclock s)))"

definition waiter :: "rstate \<Rightarrow> nat \<Rightarrow> nat option" where
  "waiter s r = (if r < length (renewals s) then r_waiter (renewals s ! r) else None)"

definition finished :: "rstate \<Rightarrow> nat \<Rightarrow> bool" where
  "finished s r \<longleftrightarrow> r < length (renewals s) \<and> r_stage (renewals s ! r) = Finished"

definition aborted :: "rstate \<Rightarrow> nat \<Rightarrow> bool" where
  "aborted s r \<longleftrightarrow>
     r < length (renewals s) \<and>
     (case r_stage (renewals s ! r) of Aborted e \<Rightarrow> True | _ \<Rightarrow> False)"

text \<open>
  The invariant of the promises of the calls: a call that is still reading has a pending
  promise that no renewal resolves; the call awaiting a renewal is known, is awaited by
  that renewal only, and its promise is pending until the renewal has finished.
\<close>

definition rinv :: "rstate \<Rightarrow> bool" where
  "rinv s \<longleftrightarrow>
     (\<forall>c args. reading s c = Some args \<longrightarrow>
        c < length (callers s) \<and> callers s ! c = Pending \<and> (\<forall>r. waiter s r \<noteq> Some c)) \<and>
     (\<forall>r c. waiter s r = Some c \<longrightarrow>
        c < length (callers s) \<and> (\<not> finished s r \<longrightarrow> callers s ! c = Pending) \<and>
        (\<forall>r'. waiter s r' = Some c \<longrightarrow> r' = r))"

text \<open>
  A call is orphaned when its promise is pending, it is not reading, and every renewal it
  awaits has been stopped by a rejection.
\<close>

definition orphan :: "rstate \<Rightarrow> nat \<Rightarrow> bool" where
  "orphan s c \<longleftrightarrow>
     c < length (callers s) \<and> callers s ! c = Pending \<and> reading s c = None \<and>
     (\<forall>r. waiter s r = Some c \<longrightarrow> aborted s r)"

text \<open>
  What a call of the distributed cache has read makes it start a renewal: no text, the
  empty text, or a record that is stale.
\<close>

definition needs_renewal :: "int \<Rightarrow> rstate \<Rightarrow> string \<Rightarrow> bool" where
  "needs_renewal timeMs s key =
     (case store s key of
        None \<Rightarrow> True
      | Some Blank \<Rightarrow> True
      | Some (Parsed at v) \<Rightarrow> isExpired (rclock s) at timeMs
      | Some _ \<Rightarrow> False)"

text \<open>
  The failure that stops a renewal at its stage: of the lock while it requests the lock,
  of \<open>f\<close> while it computes, of the write while it writes.
\<close>

definition fails :: "rstate \<Rightarrow> nat \<Rightarrow> revent \<Rightarrow> bool" where
  "fails s r ev \<longleftrightarrow>
     r < length (renewals s) \<and>
     (case r_stage (renewals s ! r) of
        Locking \<Rightarrow> ev = LockError r
      | Computing \<Rightarrow> ev = FReject r
      | Writing v a \<Rightarrow> ev = SetError r
      | _ \<Rightarrow> False)"






text \<open>
  The escaped content of a string, and the reading of one escaped character back from the
  front of a text.
\<close>

definition body :: "string \<Rightarrow> string" where
  "body s = concat (map escape_char s)"







section \<open>Properties of the serialisation\<close>






































lemma show_int_zero: "show_int 0 = ''0''"
  by (simp add: show_int_def show_nat.simps)




section \<open>Properties of the memory cache\<close>

lemmas mem_eval = mrun_def minit_def memoryCache_def executor_def f_fulfilled_def f_rejected_def
  JSON_stringify_def show_int_def show_nat.simps Let_def isExpired_def settle_def outcome_def
  key_invocations_def

lemma minv_init: "minv (minit t0)"
  by (simp add: minv_def minit_def)

lemma settle_length [simp]: "length (settle ps p st) = length ps"
  by (simp add: settle_def)

lemma settle_other: "q \<noteq> p \<Longrightarrow> settle ps p st ! q = ps ! q"
  by (simp add: settle_def)

lemma settle_settled: "ps ! q \<noteq> Pending \<Longrightarrow> settle ps p st ! q = ps ! q"
  by (cases "q = p") (simp_all add: settle_def)

lemma settle_pending: "p < length ps \<Longrightarrow> ps ! p = Pending \<Longrightarrow> settle ps p st ! p = st"
  by (simp add: settle_def)

lemma minv_unique:
  assumes "minv s" "awaiting s p = Some c" "awaiting s q = Some d" "c_key c = c_key d"
  shows "p = q"
proof -
  have "tracked s p c" "tracked s q d" using assms unfolding minv_def by blast+
  then show ?thesis using assms(4) by (auto simp: tracked_def split: option.splits)
qed

lemma tracked_executor_old:
  "tracked s p c \<Longrightarrow> c_key c \<noteq> key \<Longrightarrow> tracked (snd (executor s key cached args)) p c"
  by (auto simp: tracked_def executor_def Let_def nth_append split: option.splits)

lemma tracked_executor_new:
  "tracked (snd (executor s key cached args)) (length (promises s))
     \<lparr>c_key = key, c_args = args, c_at = mclock s, c_hasOldCache = truthy (e_value cached)\<rparr>"
  by (simp add: tracked_def executor_def Let_def nth_append)

lemma minv_executor:
  assumes "minv s" and nf: "\<forall>q c. awaiting s q = Some c \<longrightarrow> c_key c \<noteq> key"
    and und: "e_at cached = None \<longrightarrow> e_value cached = JUndefined"
  shows "minv (snd (executor s key cached args))"
proof -
  let ?s = "snd (executor s key cached args)"
  have "tracked ?s p c" if "awaiting ?s p = Some c" for p c
  proof (cases "p = length (promises s)")
    case True
    with that have "c = \<lparr>c_key = key, c_args = args, c_at = mclock s,
        c_hasOldCache = truthy (e_value cached)\<rparr>"
      by (simp add: executor_def Let_def)
    then show ?thesis using True tracked_executor_new by simp
  next
    case False
    with that have old: "awaiting s p = Some c" by (simp add: executor_def Let_def)
    then have "tracked s p c" "c_key c \<noteq> key" using assms(1) nf unfolding minv_def by blast+
    then show ?thesis by (rule tracked_executor_old)
  qed
  moreover have "e_value e = JUndefined" if "caches ?s k = Some e" "e_at e = None" for k e
    using that assms(1) und unfolding minv_def
    by (cases "k = key") (auto simp: executor_def Let_def)
  ultimately show ?thesis unfolding minv_def by blast
qed

lemma minv_call:
  assumes "minv s"
  shows "minv (snd (memoryCache timeMs s args))"
proof (cases "caches s (JSON_stringify args)")
  case None
  have "\<forall>q c. awaiting s q = Some c \<longrightarrow> c_key c \<noteq> JSON_stringify args"
    using assms None unfolding minv_def tracked_def by fastforce
  then show ?thesis
    using None assms by (simp add: memoryCache_def minv_executor)
next
  case (Some cached)
  show ?thesis
  proof (cases "\<not> isExpired (mclock s) (e_at cached) timeMs \<or> e_promise cached \<noteq> None")
    case True
    then show ?thesis using Some assms by (auto simp: memoryCache_def)
  next
    case False
    have nf: "\<forall>q c. awaiting s q = Some c \<longrightarrow> c_key c \<noteq> JSON_stringify args"
      using assms Some False unfolding minv_def tracked_def by fastforce
    have "e_at cached = None \<longrightarrow> e_value cached = JUndefined"
      using assms Some unfolding minv_def by blast
    then show ?thesis
      using Some False nf assms by (simp add: memoryCache_def minv_executor)
  qed
qed

lemma minv_fulfilled:
  assumes "minv s"
  shows "minv (f_fulfilled s p v)"
proof (cases "awaiting s p")
  case None
  then show ?thesis using assms by (simp add: f_fulfilled_def)
next
  case (Some c)
  let ?s = "f_fulfilled s p v"
  have "tracked ?s q d" if "awaiting ?s q = Some d" for q d
  proof -
    from that Some have qp: "q \<noteq> p" and old: "awaiting s q = Some d"
      by (auto simp: f_fulfilled_def split: if_splits)
    have "c_key d \<noteq> c_key c" using minv_unique [OF assms old Some] qp by blast
    moreover have "tracked s q d" using assms old unfolding minv_def by blast
    ultimately show ?thesis using Some qp
      by (auto simp: tracked_def f_fulfilled_def settle_other split: option.splits)
  qed
  moreover have "e_value e = JUndefined" if "caches ?s k = Some e" "e_at e = None" for k e
    using that assms Some unfolding minv_def
    by (cases "k = c_key c") (auto simp: f_fulfilled_def)
  ultimately show ?thesis unfolding minv_def by blast
qed

lemma minv_rejected: "minv s \<Longrightarrow> minv (f_rejected s p)"
  unfolding minv_def f_rejected_def tracked_def by (auto split: option.splits)

lemma minv_tick: "minv s \<Longrightarrow> minv (s\<lparr>mclock := t\<rparr>)"
  unfolding minv_def tracked_def by simp

lemma minv_step: "minv s \<Longrightarrow> minv (mstep timeMs s ev)"
  by (cases ev) (simp_all add: minv_call minv_fulfilled minv_rejected minv_tick)

lemma minv_run: "minv s \<Longrightarrow> minv (mrun timeMs s evs)"
  unfolding mrun_def by (induction evs arbitrary: s) (simp_all add: minv_step)

lemma minv_reachable: "minv (mrun timeMs (minit t0) evs)"
  by (simp add: minv_run minv_init)

lemma dead_call_same:
  assumes "dead s k e p" "JSON_stringify args = k"
  shows "snd (memoryCache timeMs s args) = s"
  using assms by (auto simp: dead_def memoryCache_def)

lemma dead_call_other:
  assumes "dead s k e p" "JSON_stringify args \<noteq> k"
  shows "dead (snd (memoryCache timeMs s args)) k e p \<and>
         key_invocations (snd (memoryCache timeMs s args)) k = key_invocations s k \<and>
         promises (snd (memoryCache timeMs s args)) ! p = promises s ! p"
  using assms
  by (auto simp: dead_def memoryCache_def executor_def Let_def key_invocations_def nth_append
      split: option.splits)

lemma dead_fulfilled:
  assumes "dead s k e p"
  shows "dead (f_fulfilled s q v) k e p \<and>
         key_invocations (f_fulfilled s q v) k = key_invocations s k \<and>
         promises (f_fulfilled s q v) ! p = promises s ! p"
proof (cases "awaiting s q")
  case None
  then show ?thesis using assms by (simp add: f_fulfilled_def)
next
  case (Some c)
  then have "q \<noteq> p" "c_key c \<noteq> k" using assms by (auto simp: dead_def)
  then show ?thesis using assms Some
    by (auto simp: dead_def f_fulfilled_def key_invocations_def settle_other)
qed

lemma dead_rejected:
  assumes "dead s k e p"
  shows "dead (f_rejected s q) k e p \<and>
         key_invocations (f_rejected s q) k = key_invocations s k \<and>
         promises (f_rejected s q) ! p = promises s ! p"
  using assms by (auto simp: dead_def f_rejected_def key_invocations_def split: option.splits)

lemma dead_step:
  assumes "dead s k e p"
  shows "dead (mstep timeMs s ev) k e p \<and>
         key_invocations (mstep timeMs s ev) k = key_invocations s k \<and>
         promises (mstep timeMs s ev) ! p = promises s ! p"
proof (cases ev)
  case (Call args)
  show ?thesis
  proof (cases "JSON_stringify args = k")
    case True
    then show ?thesis using assms Call dead_call_same [OF assms True] by simp
  next
    case False
    then show ?thesis using Call dead_call_other [OF assms False] by simp
  qed
next
  case (Fulfil q v)
  then show ?thesis using dead_fulfilled [OF assms] by simp
next
  case (Reject q)
  then show ?thesis using dead_rejected [OF assms] by simp
next
  case (Tick n)
  then show ?thesis using assms by (simp add: dead_def key_invocations_def)
qed

lemma dead_run:
  assumes "dead s k e p"
  shows "dead (mrun timeMs s evs) k e p \<and>
         key_invocations (mrun timeMs s evs) k = key_invocations s k \<and>
         promises (mrun timeMs s evs) ! p = promises s ! p"
  using assms
proof (induction evs arbitrary: s)
  case Nil
  then show ?case by (simp add: mrun_def)
next
  case (Cons ev evs)
  from dead_step [OF Cons.prems, of timeMs ev]
  have d: "dead (mstep timeMs s ev) k e p"
    and i: "key_invocations (mstep timeMs s ev) k = key_invocations s k"
    and pr: "promises (mstep timeMs s ev) ! p = promises s ! p" by blast+
  from Cons.IH [OF d] i pr show ?case by (simp add: mrun_def)
qed

lemma rejected_dead:
  assumes "minv s" "awaiting s p = Some c"
  shows "\<exists>e. caches s (c_key c) = Some e \<and> dead (f_rejected s p) (c_key c) e p \<and>
             key_invocations (f_rejected s p) (c_key c) = key_invocations s (c_key c) \<and>
             promises (f_rejected s p) = promises s \<and>
             (\<not> truthy (e_value e) \<longrightarrow> promises s ! p = Pending)"
proof -
  have t: "tracked s p c" using assms unfolding minv_def by blast
  then obtain e where e: "caches s (c_key c) = Some e" "e_promise e = Some p"
      "c_hasOldCache c = truthy (e_value e)"
    by (auto simp: tracked_def split: option.splits)
  have "c_key d \<noteq> c_key c" if "awaiting (f_rejected s p) q = Some d" for q d
  proof -
    from that assms(2) have "q \<noteq> p" "awaiting s q = Some d"
      by (auto simp: f_rejected_def split: if_splits)
    then show ?thesis using minv_unique [OF assms(1) _ assms(2)] by blast
  qed
  then have "dead (f_rejected s p) (c_key c) e p"
    using e t assms(2) by (auto simp: dead_def f_rejected_def tracked_def)
  then show ?thesis using e t assms(2)
    by (auto simp: f_rejected_def key_invocations_def tracked_def)
qed

section \<open>Properties of the distributed cache\<close>

lemmas red_eval = rrun_def rinit_def redisCache_call_def redisCache_resume_def
  redisCache_get_error_def renewRedisCache_def lock_granted_def lock_error_def f_done_def
  f_failed_def set_done_def set_error_def set_stage_def abort_def acquire_def release_def
  lock_available_def redis_get_def redis_set_def redis_key_def lock_name_def lease_ms_def
  JSON_stringify_def show_int_def show_nat.simps Let_def isExpired_def settle_def reparse_def
  in_critical_def waiter_def aborted_def

lemma linv_init: "linv (rinit t0 st)"
  by (simp add: linv_def rinit_def)

lemma linv_call: "linv s \<Longrightarrow> linv (redisCache_call s args)"
  by (simp add: linv_def redisCache_call_def)

lemma linv_renew: "linv s \<Longrightarrow> linv (renewRedisCache s key args w)"
  by (auto simp: linv_def renewRedisCache_def nth_append in_critical_def)

lemma linv_callers: "linv s \<Longrightarrow> linv (s\<lparr>callers := cs\<rparr>)"
  by (simp add: linv_def)

lemma linv_reading: "linv s \<Longrightarrow> linv (s\<lparr>reading := rd\<rparr>)"
  by (simp add: linv_def)

lemma linv_resume: "linv s \<Longrightarrow> linv (redisCache_resume cacheKey timeMs s c)"
  by (auto simp: redisCache_resume_def Let_def linv_renew linv_callers linv_reading
      split: option.splits stored.splits)

lemma linv_get_error: "linv s \<Longrightarrow> linv (redisCache_get_error s c)"
  by (auto simp: redisCache_get_error_def linv_def split: option.splits)

lemma linv_granted: "linv s \<Longrightarrow> linv (lock_granted s r)"
  unfolding linv_def lock_granted_def Let_def acquire_def lock_available_def
  by (auto simp: nth_list_update in_critical_def split: option.splits if_splits)

lemma linv_abort: "linv s \<Longrightarrow> linv (abort s r e)"
  unfolding linv_def abort_def set_stage_def
  by (cases "r < length (renewals s)") (auto simp: nth_list_update in_critical_def)

lemma linv_lock_error: "linv s \<Longrightarrow> linv (lock_error s r)"
  by (simp add: lock_error_def linv_abort)

lemma linv_f_done: "linv s \<Longrightarrow> linv (f_done s r v)"
  unfolding linv_def f_done_def set_stage_def
  by (auto simp: nth_list_update in_critical_def)

lemma linv_f_failed: "linv s \<Longrightarrow> linv (f_failed s r)"
  by (simp add: f_failed_def linv_abort)

lemma linv_set_error: "linv s \<Longrightarrow> linv (set_error s r)"
  by (auto simp: set_error_def linv_abort split: stage.splits)

lemma linv_set_done: "linv s \<Longrightarrow> linv (set_done s r)"
  unfolding linv_def set_done_def Let_def release_def redis_set_def set_stage_def
  by (auto simp: nth_list_update in_critical_def split: stage.splits option.splits if_splits)

lemma linv_tick: "linv s \<Longrightarrow> linv (s\<lparr>rclock := rclock s + int n\<rparr>)"
  unfolding linv_def by (auto; fastforce)

lemma linv_step: "linv s \<Longrightarrow> linv (rstep cacheKey timeMs s ev)"
  by (cases ev)
    (simp_all add: linv_call linv_resume linv_get_error linv_granted linv_lock_error
      linv_f_done linv_f_failed linv_set_done linv_set_error linv_tick)

lemma linv_run: "linv s \<Longrightarrow> linv (rrun cacheKey timeMs s evs)"
  unfolding rrun_def by (induction evs arbitrary: s) (simp_all add: linv_step)

lemma rinv_init: "rinv (rinit t0 st)"
  by (simp add: rinv_def rinit_def waiter_def)

lemma rinv_frame:
  assumes "rinv s"
    and "callers s' = callers s" "reading s' = reading s"
    and "\<And>r. waiter s' r = waiter s r"
    and "\<And>r. finished s r \<Longrightarrow> finished s' r"
  shows "rinv s'"
proof -
  have w: "waiter s' = waiter s" using assms(4) by (simp add: fun_eq_iff)
  show ?thesis using assms(1,5) unfolding rinv_def assms(2,3) w by blast
qed

lemma waiter_set_stage [simp]: "waiter (set_stage s r st) j = waiter s j"
  by (cases "r < length (renewals s)") (auto simp: waiter_def set_stage_def nth_list_update)

lemma finished_set_stage:
  "finished (set_stage s r st) j \<longleftrightarrow>
     (if j = r \<and> r < length (renewals s) then st = Finished else finished s j)"
  by (cases "r < length (renewals s)") (auto simp: finished_def set_stage_def nth_list_update)

lemma callers_set_stage [simp]: "callers (set_stage s r st) = callers s"
  by (simp add: set_stage_def)

lemma reading_set_stage [simp]: "reading (set_stage s r st) = reading s"
  by (simp add: set_stage_def)

lemma rinv_set_stage: "rinv s \<Longrightarrow> \<not> finished s r \<Longrightarrow> rinv (set_stage s r st)"
  by (rule rinv_frame [where s = s]) (auto simp: finished_set_stage split: if_splits)

lemma rinv_abort: "rinv s \<Longrightarrow> \<not> finished s r \<Longrightarrow> rinv (abort s r e)"
proof -
  assume "rinv s" "\<not> finished s r"
  then have "rinv (set_stage s r (Aborted e))" by (simp add: rinv_set_stage)
  then show ?thesis
    by (rule rinv_frame) (simp_all add: abort_def waiter_def finished_def)
qed

lemma rinv_lock_error: "rinv s \<Longrightarrow> rinv (lock_error s r)"
  by (simp add: lock_error_def rinv_abort finished_def)

lemma rinv_f_failed: "rinv s \<Longrightarrow> rinv (f_failed s r)"
  by (simp add: f_failed_def rinv_abort finished_def)

lemma rinv_set_error: "rinv s \<Longrightarrow> rinv (set_error s r)"
  by (auto simp: set_error_def rinv_abort finished_def split: stage.splits)

lemma rinv_f_done: "rinv s \<Longrightarrow> rinv (f_done s r v)"
  by (simp add: f_done_def rinv_set_stage finished_def)

lemma rinv_granted: "rinv s \<Longrightarrow> rinv (lock_granted s r)"
proof (cases "r < length (renewals s) \<and> r_stage (renewals s ! r) = Locking
         \<and> lock_available s (lock_name (r_key (renewals s ! r)))")
  case False
  assume "rinv s"
  with False show ?thesis by (auto simp: lock_granted_def)
next
  case True
  assume inv: "rinv s"
  show ?thesis
  proof (rule rinv_frame [OF inv])
    show "callers (lock_granted s r) = callers s"
      using True by (simp add: lock_granted_def Let_def acquire_def)
    show "reading (lock_granted s r) = reading s"
      using True by (simp add: lock_granted_def Let_def acquire_def)
    show "waiter (lock_granted s r) j = waiter s j" for j
      using True by (auto simp: lock_granted_def Let_def acquire_def waiter_def nth_list_update)
    show "finished s j \<Longrightarrow> finished (lock_granted s r) j" for j
      using True
      by (auto simp: lock_granted_def Let_def acquire_def finished_def nth_list_update
          split: if_splits)
  qed
qed

lemma rinv_tick: "rinv s \<Longrightarrow> rinv (s\<lparr>rclock := t\<rparr>)"
  by (rule rinv_frame [where s = s]) (simp_all add: waiter_def finished_def)

lemma rinv_call:
  assumes "rinv s"
  shows "rinv (redisCache_call s args)"
proof -
  let ?s = "redisCache_call s args"
  have w: "waiter ?s = waiter s" by (simp add: fun_eq_iff waiter_def redisCache_call_def)
  have f: "finished ?s = finished s" by (simp add: fun_eq_iff finished_def redisCache_call_def)
  have wl: "c < length (callers s)" if "waiter s r = Some c" for r c
    using assms that unfolding rinv_def by blast
  have a: "c < length (callers ?s) \<and> callers ?s ! c = Pending \<and> (\<forall>r. waiter ?s r \<noteq> Some c)"
    if "reading ?s c = Some a" for c a
  proof (cases "c = length (callers s)")
    case True
    then show ?thesis using wl unfolding w by (fastforce simp: redisCache_call_def)
  next
    case False
    with that have "reading s c = Some a" by (simp add: redisCache_call_def)
    then have "c < length (callers s) \<and> callers s ! c = Pending \<and> (\<forall>r. waiter s r \<noteq> Some c)"
      using assms unfolding rinv_def by blast
    then show ?thesis unfolding w by (simp add: redisCache_call_def nth_append)
  qed
  have b: "c < length (callers ?s) \<and> (\<not> finished ?s r \<longrightarrow> callers ?s ! c = Pending) \<and>
        (\<forall>r'. waiter ?s r' = Some c \<longrightarrow> r' = r)" if "waiter ?s r = Some c" for r c
  proof -
    from that have "waiter s r = Some c" unfolding w .
    then have "c < length (callers s) \<and> (\<not> finished s r \<longrightarrow> callers s ! c = Pending) \<and>
        (\<forall>r'. waiter s r' = Some c \<longrightarrow> r' = r)"
      using assms unfolding rinv_def by blast
    then show ?thesis unfolding w f by (simp add: redisCache_call_def nth_append)
  qed
  show ?thesis unfolding rinv_def using a b by blast
qed

lemma rinv_reader:
  assumes "rinv s" "reading s c = Some a"
  shows "c < length (callers s)" "callers s ! c = Pending" "waiter s r \<noteq> Some c"
  using assms unfolding rinv_def by blast+

lemma rinv_waiter:
  assumes "rinv s" "waiter s r = Some c"
  shows "c < length (callers s)" "\<not> finished s r \<Longrightarrow> callers s ! c = Pending"
    "waiter s r' = Some c \<Longrightarrow> r' = r"
  using assms unfolding rinv_def by blast+

lemma rinvI:
  assumes "\<And>c a. reading s c = Some a \<Longrightarrow> c < length (callers s)"
    and "\<And>c a. reading s c = Some a \<Longrightarrow> callers s ! c = Pending"
    and "\<And>c a r. reading s c = Some a \<Longrightarrow> waiter s r \<noteq> Some c"
    and "\<And>r c. waiter s r = Some c \<Longrightarrow> c < length (callers s)"
    and "\<And>r c. waiter s r = Some c \<Longrightarrow> \<not> finished s r \<Longrightarrow> callers s ! c = Pending"
    and "\<And>r r' c. waiter s r = Some c \<Longrightarrow> waiter s r' = Some c \<Longrightarrow> r' = r"
  shows "rinv s"
  unfolding rinv_def using assms by blast

lemma rinv_settle_reader:
  assumes inv: "rinv s" and rd: "reading s c = Some a"
  shows "rinv (s\<lparr>reading := (reading s)(c := None), callers := settle (callers s) c st\<rparr>)"
    (is "rinv ?s")
proof (rule rinvI)
  have w: "waiter ?s = waiter s" by (simp add: fun_eq_iff waiter_def)
  have f: "finished ?s = finished s" by (simp add: fun_eq_iff finished_def)
  fix c' a' assume "reading ?s c' = Some a'"
  then have ne: "c' \<noteq> c" and old: "reading s c' = Some a'" by (auto split: if_splits)
  show "c' < length (callers ?s)" using rinv_reader(1) [OF inv old] by simp
  show "callers ?s ! c' = Pending" using rinv_reader(2) [OF inv old] ne by (simp add: settle_other)
  show "waiter ?s r \<noteq> Some c'" for r using rinv_reader(3) [OF inv old] unfolding w .
next
  have w: "waiter ?s = waiter s" by (simp add: fun_eq_iff waiter_def)
  have f: "finished ?s = finished s" by (simp add: fun_eq_iff finished_def)
  fix r c' assume "waiter ?s r = Some c'"
  then have old: "waiter s r = Some c'" unfolding w .
  then have ne: "c' \<noteq> c" using rinv_reader(3) [OF inv rd] by blast
  show "c' < length (callers ?s)" using rinv_waiter(1) [OF inv old] by simp
  show "callers ?s ! c' = Pending" if "\<not> finished ?s r"
    using rinv_waiter(2) [OF inv old] that ne unfolding f by (simp add: settle_other)
  show "r' = r" if "waiter ?s r' = Some c'" for r'
    using rinv_waiter(3) [OF inv old] that unfolding w by blast
qed

lemma rinv_get_error: "rinv s \<Longrightarrow> rinv (redisCache_get_error s c)"
  by (auto simp: redisCache_get_error_def rinv_settle_reader split: option.splits)

lemma rinv_renew_none:
  assumes "rinv s"
  shows "rinv (renewRedisCache s key args None)"
proof (rule rinv_frame [OF assms])
  show "waiter (renewRedisCache s key args None) r = waiter s r" for r
    by (auto simp: waiter_def renewRedisCache_def nth_append)
  show "finished s r \<Longrightarrow> finished (renewRedisCache s key args None) r" for r
    by (auto simp: finished_def renewRedisCache_def nth_append)
qed (simp_all add: renewRedisCache_def)

lemma rinv_renew_cold:
  assumes inv: "rinv s" and rd: "reading s c = Some a"
  shows "rinv (renewRedisCache (s\<lparr>reading := (reading s)(c := None)\<rparr>) key args (Some c))"
    (is "rinv ?s")
proof (rule rinvI)
  have w: "waiter ?s r = (if r = length (renewals s) then Some c else waiter s r)" for r
    by (auto simp: waiter_def renewRedisCache_def nth_append)
  fix c' a' assume "reading ?s c' = Some a'"
  then have ne: "c' \<noteq> c" and old: "reading s c' = Some a'"
    by (auto simp: renewRedisCache_def split: if_splits)
  show "c' < length (callers ?s)"
    using rinv_reader(1) [OF inv old] by (simp add: renewRedisCache_def)
  show "callers ?s ! c' = Pending"
    using rinv_reader(2) [OF inv old] by (simp add: renewRedisCache_def)
  show "waiter ?s r \<noteq> Some c'" for r
    using rinv_reader(3) [OF inv old] ne unfolding w by simp
next
  have w: "waiter ?s r = (if r = length (renewals s) then Some c else waiter s r)" for r
    by (auto simp: waiter_def renewRedisCache_def nth_append)
  have f: "finished ?s r \<longleftrightarrow> finished s r" for r
    by (auto simp: finished_def renewRedisCache_def nth_append)
  have cs: "callers ?s = callers s" by (simp add: renewRedisCache_def)
  fix r c' assume wr: "waiter ?s r = Some c'"
  show "c' < length (callers ?s)"
    using wr rinv_reader(1) [OF inv rd] rinv_waiter(1) [OF inv] unfolding w cs
    by (auto split: if_splits)
  show "callers ?s ! c' = Pending" if "\<not> finished ?s r"
    using wr that rinv_reader(2) [OF inv rd] rinv_waiter(2) [OF inv] unfolding w cs f
    by (auto split: if_splits)
  show "r' = r" if "waiter ?s r' = Some c'" for r'
    using wr that rinv_reader(3) [OF inv rd] rinv_waiter(3) [OF inv] unfolding w
    by (auto split: if_splits)
qed

lemma resume_parsed:
  assumes "reading s c = Some args" "redis_get s (redis_key cacheKey args) = Some (Parsed at v)"
  shows "redisCache_resume cacheKey timeMs s c =
     (let s0 = s\<lparr>reading := (reading s)(c := None), callers := settle (callers s) c (Resolved v)\<rparr>
      in if isExpired (rclock s) at timeMs
         then renewRedisCache s0 (redis_key cacheKey args) args None else s0)"
  using assms by (simp add: redisCache_resume_def Let_def renewRedisCache_def)

lemma rinv_resume:
  assumes inv: "rinv s"
  shows "rinv (redisCache_resume cacheKey timeMs s c)"
proof (cases "reading s c")
  case None
  then show ?thesis using inv by (simp add: redisCache_resume_def)
next
  case (Some args)
  show ?thesis
  proof (cases "redis_get s (redis_key cacheKey args)")
    case None
    then show ?thesis using Some rinv_renew_cold [OF inv Some]
      by (simp add: redisCache_resume_def Let_def)
  next
    case (Some body)
    note body = this
    show ?thesis
    proof (cases body)
      case Blank
      then show ?thesis using body \<open>reading s c = Some args\<close>
          rinv_renew_cold [OF inv \<open>reading s c = Some args\<close>]
        by (simp add: redisCache_resume_def Let_def)
    next
      case Malformed
      then show ?thesis using body \<open>reading s c = Some args\<close>
          rinv_settle_reader [OF inv \<open>reading s c = Some args\<close>]
        by (simp add: redisCache_resume_def Let_def)
    next
      case NullJson
      then show ?thesis using body \<open>reading s c = Some args\<close>
          rinv_settle_reader [OF inv \<open>reading s c = Some args\<close>]
        by (simp add: redisCache_resume_def Let_def)
    next
      case (Parsed at v)
      with body have g: "redis_get s (redis_key cacheKey args) = Some (Parsed at v)" by simp
      show ?thesis
        unfolding resume_parsed [OF \<open>reading s c = Some args\<close> g] Let_def
        using rinv_settle_reader [OF inv \<open>reading s c = Some args\<close>] rinv_renew_none
        by simp
    qed
  qed
qed

lemma rinv_set_done:
  assumes inv: "rinv s"
  shows "rinv (set_done s r)"
proof (cases "r < length (renewals s) \<and> (\<exists>v a. r_stage (renewals s ! r) = Writing v a)")
  case False
  then show ?thesis using inv by (auto simp: set_done_def split: stage.splits)
next
  case True
  then obtain v a where r: "r < length (renewals s)" and st: "r_stage (renewals s ! r) = Writing v a"
    by blast
  let ?s = "set_done s r"
  have w: "waiter ?s = waiter s"
    using r st
    by (auto simp: fun_eq_iff waiter_def set_done_def Let_def redis_set_def release_def
        set_stage_def nth_list_update split: option.splits)
  have f: "finished ?s j \<longleftrightarrow> j = r \<or> finished s j" for j
    using r st
    by (auto simp: finished_def set_done_def Let_def redis_set_def release_def
        set_stage_def nth_list_update split: option.splits)
  have rd: "reading ?s = reading s"
    using r st
    by (auto simp: set_done_def Let_def redis_set_def release_def set_stage_def
        split: option.splits)
  have cs: "callers ?s = (case waiter s r of None \<Rightarrow> callers s
              | Some c \<Rightarrow> settle (callers s) c (Resolved v))"
    using r st
    by (auto simp: waiter_def set_done_def Let_def redis_set_def release_def set_stage_def
        split: option.splits)
  have len: "length (callers ?s) = length (callers s)"
    unfolding cs by (simp split: option.splits)
  have keep: "callers ?s ! c = callers s ! c" if "waiter s r \<noteq> Some c" for c
    using that unfolding cs by (auto simp: settle_other split: option.splits)
  show ?thesis
  proof (rule rinvI)
    fix c a' assume old: "reading ?s c = Some a'"
    then have old: "reading s c = Some a'" unfolding rd .
    show "c < length (callers ?s)" using rinv_reader(1) [OF inv old] len by simp
    show "callers ?s ! c = Pending"
      using rinv_reader(2,3) [OF inv old] keep by simp
    show "waiter ?s j \<noteq> Some c" for j using rinv_reader(3) [OF inv old] unfolding w .
  next
    fix j c assume "waiter ?s j = Some c"
    then have old: "waiter s j = Some c" unfolding w .
    show "c < length (callers ?s)" using rinv_waiter(1) [OF inv old] len by simp
    show "callers ?s ! c = Pending" if "\<not> finished ?s j"
    proof -
      from that have "j \<noteq> r" "\<not> finished s j" unfolding f by blast+
      then have "waiter s r \<noteq> Some c" using rinv_waiter(3) [OF inv old] by blast
      then show ?thesis using keep rinv_waiter(2) [OF inv old] \<open>\<not> finished s j\<close> by simp
    qed
    show "r' = j" if "waiter ?s r' = Some c" for r'
      using rinv_waiter(3) [OF inv old] that unfolding w by blast
  qed
qed

lemma rinv_step: "rinv s \<Longrightarrow> rinv (rstep cacheKey timeMs s ev)"
  by (cases ev)
    (simp_all add: rinv_call rinv_resume rinv_get_error rinv_granted rinv_lock_error
      rinv_f_done rinv_f_failed rinv_set_done rinv_set_error rinv_tick)

lemma rinv_run: "rinv s \<Longrightarrow> rinv (rrun cacheKey timeMs s evs)"
  unfolding rrun_def by (induction evs arbitrary: s) (simp_all add: rinv_step)

lemma linv_reachable: "linv (rrun cacheKey timeMs (rinit t0 st) evs)"
  by (simp add: linv_run linv_init)

lemma rinv_reachable: "rinv (rrun cacheKey timeMs (rinit t0 st) evs)"
  by (simp add: rinv_run rinv_init)

lemma rrun_Cons: "rrun k t s (ev # evs) = rrun k t (rstep k t s ev) evs"
  by (simp add: rrun_def)

lemma rrun_Nil: "rrun k t s [] = s"
  by (simp add: rrun_def)

text \<open>A settled promise of a call never changes.\<close>

lemma settled_step:
  assumes "c < length (callers s)" "callers s ! c \<noteq> Pending"
  shows "c < length (callers (rstep k t s ev)) \<and> callers (rstep k t s ev) ! c = callers s ! c"
proof (cases ev)
  case (RCall args)
  then show ?thesis using assms by (simp add: redisCache_call_def nth_append)
next
  case (GetReply c')
  then show ?thesis using assms
    by (auto simp: redisCache_resume_def Let_def renewRedisCache_def settle_settled
        split: option.splits stored.splits)
next
  case (GetError c')
  then show ?thesis using assms
    by (auto simp: redisCache_get_error_def settle_settled split: option.splits)
next
  case (LockGranted r)
  then show ?thesis using assms by (auto simp: lock_granted_def Let_def acquire_def)
next
  case (LockError r)
  then show ?thesis using assms by (auto simp: lock_error_def abort_def)
next
  case (FFulfil r v)
  then show ?thesis using assms by (auto simp: f_done_def)
next
  case (FReject r)
  then show ?thesis using assms by (auto simp: f_failed_def abort_def)
next
  case (SetReply r)
  then show ?thesis using assms
    by (auto simp: set_done_def Let_def redis_set_def release_def set_stage_def settle_settled
        split: stage.splits option.splits)
next
  case (SetError r)
  then show ?thesis using assms by (auto simp: set_error_def abort_def split: stage.splits)
next
  case (RTick n)
  then show ?thesis using assms by simp
qed

lemma settled_run:
  assumes "c < length (callers s)" "callers s ! c \<noteq> Pending"
  shows "c < length (callers (rrun k t s evs)) \<and> callers (rrun k t s evs) ! c = callers s ! c"
  using assms
proof (induction evs arbitrary: s)
  case Nil
  then show ?case by (simp add: rrun_Nil)
next
  case (Cons ev evs)
  from settled_step [OF Cons.prems, of k t ev]
  have 1: "c < length (callers (rstep k t s ev))"
    and 2: "callers (rstep k t s ev) ! c = callers s ! c" by blast+
  from Cons.IH [OF 1] 2 Cons.prems(2) show ?case by (simp add: rrun_Cons)
qed

lemma resume_stale:
  assumes inv: "rinv s" and rd: "reading s c = Some args"
    and rec: "store s (redis_key cacheKey args) = Some (Parsed at v)"
    and stale: "isExpired (rclock s) at timeMs"
  shows "redisCache_resume cacheKey timeMs s c =
     s\<lparr>reading := (reading s)(c := None),
       callers := (callers s)[c := Resolved v],
       renewals := renewals s @
          [\<lparr>r_key = redis_key cacheKey args, r_args = args, r_stage = Locking, r_lock = None,
            r_waiter = None\<rparr>]\<rparr>"
proof -
  have "settle (callers s) c (Resolved v) = (callers s)[c := Resolved v]"
    using rinv_reader(1,2) [OF inv rd] by (simp add: settle_def)
  then show ?thesis
    using rd rec stale by (simp add: redisCache_resume_def Let_def redis_get_def renewRedisCache_def)
qed



lemma store_changes_only_by_write:
  assumes "store (rstep cacheKey timeMs s ev) \<noteq> store s"
  shows "\<exists>r v a. ev = SetReply r \<and> r < length (renewals s) \<and>
           r_stage (renewals s ! r) = Writing v a \<and>
           store (rstep cacheKey timeMs s ev) =
             (store s)(r_key (renewals s ! r) \<mapsto> Parsed (Some a) (reparse v))"
proof (cases ev)
  case (RCall args)
  then show ?thesis using assms by (simp add: redisCache_call_def)
next
  case (GetReply c')
  then show ?thesis using assms
    by (auto simp: redisCache_resume_def Let_def renewRedisCache_def
        split: option.splits stored.splits if_splits)
next
  case (GetError c')
  then show ?thesis using assms
    by (auto simp: redisCache_get_error_def split: option.splits)
next
  case (LockGranted r)
  then show ?thesis using assms by (auto simp: lock_granted_def Let_def acquire_def split: if_splits)
next
  case (LockError r)
  then show ?thesis using assms by (auto simp: lock_error_def abort_def set_stage_def split: if_splits)
next
  case (FFulfil r v)
  then show ?thesis using assms by (auto simp: f_done_def set_stage_def split: if_splits)
next
  case (FReject r)
  then show ?thesis using assms by (auto simp: f_failed_def abort_def set_stage_def split: if_splits)
next
  case (SetReply r)
  then show ?thesis using assms
    by (auto simp: set_done_def Let_def redis_set_def release_def set_stage_def
        split: stage.splits option.splits if_splits)
next
  case (SetError r)
  then show ?thesis using assms
    by (auto simp: set_error_def abort_def set_stage_def split: stage.splits if_splits)
next
  case (RTick n)
  then show ?thesis using assms by simp
qed

lemma orphan_frame:
  assumes "orphan s c"
    and "length (callers s') \<ge> length (callers s)" "callers s' ! c = callers s ! c"
    and "reading s' c = None"
    and "\<And>r. waiter s' r = Some c \<Longrightarrow> waiter s r = Some c"
    and "\<And>r. aborted s r \<Longrightarrow> aborted s' r"
  shows "orphan s' c"
  using assms unfolding orphan_def by (metis order_less_le_trans)

lemma aborted_set_stage:
  "aborted s j \<Longrightarrow> \<not> aborted s r \<Longrightarrow> aborted (set_stage s r st) j"
  by (cases "r < length (renewals s)") (auto simp: aborted_def set_stage_def nth_list_update)

lemma orphan_set_stage:
  assumes "orphan s c" "\<not> aborted s r"
  shows "orphan (set_stage s r st) c"
  using assms(1)
proof (rule orphan_frame)
  show "reading (set_stage s r st) c = None" using assms(1) by (simp add: orphan_def)
  show "aborted (set_stage s r st) j" if "aborted s j" for j
    using that assms(2) by (rule aborted_set_stage)
qed simp_all

lemma orphan_abort:
  assumes "orphan s c" "\<not> aborted s r"
  shows "orphan (abort s r e) c"
proof -
  have o: "orphan (set_stage s r (Aborted e)) c" using assms by (rule orphan_set_stage)
  show ?thesis using o
  proof (rule orphan_frame)
    show "reading (abort s r e) c = None" using o by (simp add: abort_def orphan_def)
  qed (auto simp: abort_def waiter_def aborted_def split: if_splits)
qed

lemma orphan_granted:
  assumes "orphan s c"
  shows "orphan (lock_granted s r) c"
proof (cases "r < length (renewals s) \<and> r_stage (renewals s ! r) = Locking
         \<and> lock_available s (lock_name (r_key (renewals s ! r)))")
  case False
  then show ?thesis using assms by (auto simp: lock_granted_def)
next
  case True
  show ?thesis using assms
  proof (rule orphan_frame)
    show "reading (lock_granted s r) c = None"
      using True assms by (simp add: lock_granted_def Let_def acquire_def orphan_def)
    show "waiter (lock_granted s r) j = Some c \<Longrightarrow> waiter s j = Some c" for j
      using True
      by (auto simp: lock_granted_def Let_def acquire_def waiter_def nth_list_update
          split: if_splits)
    show "aborted s j \<Longrightarrow> aborted (lock_granted s r) j" for j
      using True
      by (auto simp: lock_granted_def Let_def acquire_def aborted_def nth_list_update)
  qed (use True in \<open>simp_all add: lock_granted_def Let_def acquire_def\<close>)
qed

lemma orphan_set_done:
  assumes "orphan s c"
  shows "orphan (set_done s r) c"
proof (cases "r < length (renewals s) \<and> (\<exists>v a. r_stage (renewals s ! r) = Writing v a)")
  case False
  then show ?thesis using assms by (auto simp: set_done_def split: stage.splits)
next
  case True
  then obtain v a where r: "r < length (renewals s)" and st: "r_stage (renewals s ! r) = Writing v a"
    by blast
  have nc: "waiter s r \<noteq> Some c"
    using assms r st by (auto simp: orphan_def aborted_def)
  show ?thesis using assms
  proof (rule orphan_frame)
    show "length (callers s) \<le> length (callers (set_done s r))"
      using r st
      by (auto simp: set_done_def Let_def redis_set_def release_def set_stage_def
          split: option.splits)
    show "callers (set_done s r) ! c = callers s ! c"
      using r st nc
      by (auto simp: set_done_def Let_def redis_set_def release_def set_stage_def waiter_def
          settle_other split: option.splits)
    show "reading (set_done s r) c = None"
      using r st assms
      by (auto simp: set_done_def Let_def redis_set_def release_def set_stage_def orphan_def
          split: option.splits)
    show "waiter (set_done s r) j = Some c \<Longrightarrow> waiter s j = Some c" for j
      using r st
      by (auto simp: set_done_def Let_def redis_set_def release_def set_stage_def waiter_def
          nth_list_update split: option.splits if_splits)
    show "aborted s j \<Longrightarrow> aborted (set_done s r) j" for j
      using r st
      by (auto simp: set_done_def Let_def redis_set_def release_def set_stage_def aborted_def
          nth_list_update split: option.splits)
  qed
qed

lemma orphan_call:
  assumes "orphan s c"
  shows "orphan (redisCache_call s args) c"
  using assms
proof (rule orphan_frame)
  show "reading (redisCache_call s args) c = None"
    using assms by (simp add: redisCache_call_def orphan_def)
  show "callers (redisCache_call s args) ! c = callers s ! c"
    using assms by (simp add: redisCache_call_def orphan_def nth_append)
qed (auto simp: redisCache_call_def waiter_def aborted_def split: if_splits)

lemma orphan_get_error:
  assumes "orphan s c"
  shows "orphan (redisCache_get_error s c') c"
proof (cases "reading s c'")
  case None
  then show ?thesis using assms by (simp add: redisCache_get_error_def)
next
  case (Some args)
  then have ne: "c' \<noteq> c" using assms by (auto simp: orphan_def)
  show ?thesis using assms
  proof (rule orphan_frame)
    show "callers (redisCache_get_error s c') ! c = callers s ! c"
      using Some ne by (simp add: redisCache_get_error_def settle_other)
    show "reading (redisCache_get_error s c') c = None"
      using Some assms by (simp add: redisCache_get_error_def orphan_def)
  qed (use Some in \<open>auto simp: redisCache_get_error_def waiter_def aborted_def split: if_splits\<close>)
qed

lemma orphan_resume:
  assumes "orphan s c"
  shows "orphan (redisCache_resume cacheKey timeMs s c') c"
proof (cases "reading s c'")
  case None
  then show ?thesis using assms by (simp add: redisCache_resume_def)
next
  case (Some args)
  then have ne: "c' \<noteq> c" using assms by (auto simp: orphan_def)
  show ?thesis using assms
  proof (rule orphan_frame)
    show "length (callers s) \<le> length (callers (redisCache_resume cacheKey timeMs s c'))"
      using Some
      by (auto simp: redisCache_resume_def Let_def renewRedisCache_def
          split: option.splits stored.splits)
    show "callers (redisCache_resume cacheKey timeMs s c') ! c = callers s ! c"
      using Some ne
      by (auto simp: redisCache_resume_def Let_def renewRedisCache_def settle_other
          split: option.splits stored.splits)
    show "reading (redisCache_resume cacheKey timeMs s c') c = None"
      using Some assms
      by (auto simp: redisCache_resume_def Let_def renewRedisCache_def orphan_def
          split: option.splits stored.splits)
    show "waiter (redisCache_resume cacheKey timeMs s c') j = Some c \<Longrightarrow> waiter s j = Some c"
      for j
      using Some ne
      by (auto simp: redisCache_resume_def Let_def renewRedisCache_def waiter_def nth_append
          split: option.splits stored.splits if_splits)
    show "aborted s j \<Longrightarrow> aborted (redisCache_resume cacheKey timeMs s c') j" for j
      using Some
      by (auto simp: redisCache_resume_def Let_def renewRedisCache_def aborted_def nth_append
          split: option.splits stored.splits)
  qed
qed

lemma orphan_step:
  assumes "orphan s c"
  shows "orphan (rstep cacheKey timeMs s ev) c"
proof (cases ev)
  case (RCall args)
  then show ?thesis using assms by (simp add: orphan_call)
next
  case (GetReply c')
  then show ?thesis using assms by (simp add: orphan_resume)
next
  case (GetError c')
  then show ?thesis using assms by (simp add: orphan_get_error)
next
  case (LockGranted r)
  then show ?thesis using assms by (simp add: orphan_granted)
next
  case (LockError r)
  then show ?thesis using assms by (auto simp: lock_error_def aborted_def intro!: orphan_abort)
next
  case (FFulfil r v)
  then show ?thesis using assms by (auto simp: f_done_def aborted_def intro!: orphan_set_stage)
next
  case (FReject r)
  then show ?thesis using assms by (auto simp: f_failed_def aborted_def intro!: orphan_abort)
next
  case (SetReply r)
  then show ?thesis using assms by (simp add: orphan_set_done)
next
  case (SetError r)
  then show ?thesis using assms
    by (auto simp: set_error_def aborted_def split: stage.splits intro!: orphan_abort)
next
  case (RTick n)
  then show ?thesis using assms by (simp add: orphan_def waiter_def aborted_def)
qed

lemma orphan_run: "orphan s c \<Longrightarrow> orphan (rrun cacheKey timeMs s evs) c"
  unfolding rrun_def by (induction evs arbitrary: s) (simp_all add: orphan_step)

lemma aborted_orphan:
  assumes inv: "rinv s" and w: "waiter s r = Some c" and ab: "aborted s r"
  shows "orphan s c"
proof -
  have nf: "\<not> finished s r" using ab by (auto simp: aborted_def finished_def)
  have "reading s c = None"
  proof (cases "reading s c")
    case (Some a)
    then show ?thesis using rinv_reader(3) [OF inv Some, of r] w by simp
  qed simp
  moreover have "aborted s r'" if "waiter s r' = Some c" for r'
    using rinv_waiter(3) [OF inv w that] ab by simp
  ultimately show ?thesis
    using rinv_waiter(1,2) [OF inv w] nf unfolding orphan_def by blast
qed

section \<open>The scenarios of the specification\<close>

text \<open>
  Scenario A, on the memory cache with \<^verbatim>\<open>staleAfter = 1000\<close> and \<open>f\<close> resolving to 1, then
  2: the call at time 0 receives 1; the call at time 100 is returned 1 and changes
  nothing; the call at time 1100 starts a renewal and its promise is resolved with 1 at
  once; the call at time 1200 is returned 2; \<open>f\<close> has been invoked twice.
\<close>

lemma scenario_A:
  "fst (memoryCache 1000 (minit 0) [JNum 7]) = Following 0 \<and>
   outcome (mrun 1000 (minit 0) [Call [JNum 7], Fulfil 0 (JNum 1)]) (Following 0)
     = Resolved (JNum 1) \<and>
   memoryCache 1000 (mrun 1000 (minit 0) [Call [JNum 7], Fulfil 0 (JNum 1), Tick 100]) [JNum 7]
     = (Returned (JNum 1), mrun 1000 (minit 0) [Call [JNum 7], Fulfil 0 (JNum 1), Tick 100]) \<and>
   fst (memoryCache 1000
     (mrun 1000 (minit 0) [Call [JNum 7], Fulfil 0 (JNum 1), Tick 100, Tick 1000]) [JNum 7])
     = Following 1 \<and>
   outcome (mrun 1000 (minit 0)
       [Call [JNum 7], Fulfil 0 (JNum 1), Tick 100, Tick 1000, Call [JNum 7]]) (Following 1)
     = Resolved (JNum 1) \<and>
   fst (memoryCache 1000 (mrun 1000 (minit 0)
       [Call [JNum 7], Fulfil 0 (JNum 1), Tick 100, Tick 1000, Call [JNum 7],
        Fulfil 1 (JNum 2), Tick 100]) [JNum 7])
     = Returned (JNum 2) \<and>
   invocations (mrun 1000 (minit 0)
       [Call [JNum 7], Fulfil 0 (JNum 1), Tick 100, Tick 1000, Call [JNum 7],
        Fulfil 1 (JNum 2), Tick 100, Call [JNum 7]]) = [[JNum 7], [JNum 7]]"
  by (simp add: mem_eval)

text \<open>
  Scenario C, on the distributed cache with an empty store: the lock is acquired, \<open>f\<close> is
  invoked once, the record is written, the lock is released and the caller receives the
  value.
\<close>

lemma scenario_C:
  "finvocations (rrun ''ns'' 1000 (rinit 0 Map.empty)
       [RCall [JNum 7], GetReply 0, LockGranted 0, FFulfil 0 (JNum 1), SetReply 0]) = [[JNum 7]] \<and>
   store (rrun ''ns'' 1000 (rinit 0 Map.empty)
       [RCall [JNum 7], GetReply 0, LockGranted 0, FFulfil 0 (JNum 1), SetReply 0]) ''ns[7]''
     = Some (Parsed (Some 0) (JNum 1)) \<and>
   callers (rrun ''ns'' 1000 (rinit 0 Map.empty)
       [RCall [JNum 7], GetReply 0, LockGranted 0, FFulfil 0 (JNum 1), SetReply 0])
     = [Resolved (JNum 1)] \<and>
   locks (rrun ''ns'' 1000 (rinit 0 Map.empty)
       [RCall [JNum 7], GetReply 0, LockGranted 0, FFulfil 0 (JNum 1), SetReply 0]) ''ns[7]-lock''
     = None"
  by (simp add: red_eval)

section \<open>Claims about the memory cache\<close>

subsection \<open>Cold start\<close>

text \<open>
  While the first computation for a key is in flight, the entry of the key has a promise
  but no \<^verbatim>\<open>at\<close>, so \<open>isExpired\<close> is false and a call returns the entry's value, which is
  \<^verbatim>\<open>undefined\<close>; it never reaches \<^verbatim>\<open>return value || promise\<close>.
\<close>

lemma cold_in_flight_call:
  assumes "s = mrun timeMs (minit t0) evs" "awaiting s p = Some c"
    "caches s (c_key c) = Some e" "e_at e = None" "JSON_stringify args = c_key c"
  shows "memoryCache timeMs s args = (Returned JUndefined, s)"
proof -
  have "minv s" using assms(1) minv_reachable by simp
  then have "e_value e = JUndefined" using assms(3,4) unfolding minv_def by blast
  then show ?thesis using assms by (simp add: memoryCache_def isExpired_def)
qed

text \<open>
  C1 (single-flight on cold start).  The claim: when several callers call concurrently
  for a key that has no record and no computation in flight, \<open>f\<close> is invoked exactly once
  and the promises of all callers resolve to the value computed.  On the code, with two
  callers of the arguments \<^verbatim>\<open>[7]\<close> at an empty cache: the first caller follows the new
  promise \<open>0\<close>, the second is returned \<^verbatim>\<open>undefined\<close> at once; \<open>f\<close> is invoked once, and
  its value \<open>1\<close> reaches the first caller only.
\<close>

theorem cold_second_caller_gets_undefined:
  "fst (memoryCache 1000 (minit 0) [JNum 7]) = Following 0 \<and>
   fst (memoryCache 1000 (snd (memoryCache 1000 (minit 0) [JNum 7])) [JNum 7]) = Returned JUndefined \<and>
   invocations (mrun 1000 (minit 0) [Call [JNum 7], Call [JNum 7], Fulfil 0 (JNum 1)]) = [[JNum 7]] \<and>
   outcome (mrun 1000 (minit 0) [Call [JNum 7], Call [JNum 7], Fulfil 0 (JNum 1)]) (Following 0)
     = Resolved (JNum 1)"
  by (simp add: mem_eval)

text \<open>
  C5 (a failed cold computation poisons the key).  Let the first computation for a key
  be in flight (the entry has no \<^verbatim>\<open>at\<close>) in a reachable state, and let it fail.  Then,
  whatever happens afterwards, the entry is the same (its promise is never cleared and no
  record is written), a call for the key returns \<^verbatim>\<open>undefined\<close> at once and changes
  nothing, \<open>f\<close> is not invoked for the key again, and the promise of the first caller is
  still pending.
\<close>

theorem cold_failure_poisons_key:
  assumes reach: "s = mrun timeMs (minit t0) evs0"
    and flight: "awaiting s p = Some c"
    and cold: "caches s (c_key c) = Some e" "e_at e = None"
    and later: "s' = mrun timeMs (f_rejected s p) evs"
    and args: "JSON_stringify args = c_key c"
  shows "caches s' (c_key c) = Some e \<and> e_promise e = Some p \<and>
         memoryCache timeMs s' args = (Returned JUndefined, s') \<and>
         key_invocations s' (c_key c) = key_invocations s (c_key c) \<and>
         outcome s' (Following p) = Pending"
proof -
  have inv: "minv s" using reach minv_reachable by simp
  from rejected_dead [OF inv flight] cold(1)
  have d0: "dead (f_rejected s p) (c_key c) e p"
    and i0: "key_invocations (f_rejected s p) (c_key c) = key_invocations s (c_key c)"
    and p0: "promises (f_rejected s p) = promises s"
    and pend: "\<not> truthy (e_value e) \<longrightarrow> promises s ! p = Pending" by auto
  have und: "e_value e = JUndefined" using inv cold unfolding minv_def by blast
  from dead_run [OF d0, of timeMs evs] later
  have d: "dead s' (c_key c) e p"
    and i: "key_invocations s' (c_key c) = key_invocations (f_rejected s p) (c_key c)"
    and pr: "promises s' ! p = promises (f_rejected s p) ! p" by simp_all
  have "memoryCache timeMs s' args = (Returned JUndefined, s')"
    using d cold(2) und args by (simp add: dead_def memoryCache_def isExpired_def)
  moreover have "outcome s' (Following p) = Pending"
    using d pr p0 pend und by (simp add: outcome_def dead_def)
  ultimately show ?thesis using d i i0 by (simp add: dead_def)
qed

theorem cold_failure_poisons_key_witness:
  "awaiting (mrun 1000 (minit 0) [Call [JNum 7]]) 0 =
     Some \<lparr>c_key = ''[7]'', c_args = [JNum 7], c_at = 0, c_hasOldCache = False\<rparr> \<and>
   caches (mrun 1000 (minit 0) [Call [JNum 7]]) ''[7]'' =
     Some \<lparr>e_at = None, e_promise = Some 0, e_value = JUndefined\<rparr> \<and>
   fst (memoryCache 1000
     (mrun 1000 (f_rejected (mrun 1000 (minit 0) [Call [JNum 7]]) 0) [Tick 5000, Call [JNum 7]])
     [JNum 7]) = Returned JUndefined \<and>
   key_invocations
     (mrun 1000 (f_rejected (mrun 1000 (minit 0) [Call [JNum 7]]) 0) [Tick 5000, Call [JNum 7]])
     ''[7]'' = [[JNum 7]]"
proof -
  let ?s = "mrun 1000 (minit 0) [Call [JNum 7]]"
  let ?c = "\<lparr>c_key = ''[7]'', c_args = [JNum 7], c_at = 0, c_hasOldCache = False\<rparr>"
  let ?e = "\<lparr>e_at = None, e_promise = Some 0, e_value = JUndefined\<rparr>"
  have h1: "awaiting ?s 0 = Some ?c" by (simp add: mem_eval)
  have h2: "caches ?s (c_key ?c) = Some ?e" by (simp add: mem_eval)
  have h3: "e_at ?e = None" by simp
  have h4: "JSON_stringify [JNum 7] = c_key ?c" by (simp add: mem_eval)
  have h5: "key_invocations ?s ''[7]'' = [[JNum 7]]" by (simp add: mem_eval)
  from cold_failure_poisons_key [OF refl h1 h2 h3 refl h4, of "[Tick 5000, Call [JNum 7]]"] h1 h2 h5
  show ?thesis by simp
qed

subsection \<open>Failure of a renewal\<close>

text \<open>
  The claim C3 fails on the code.  At \<^verbatim>\<open>staleAfter = 1000\<close>: a record is computed at
  time 0, found stale at time 1100, and its renewal fails.  At time 6100 the record is
  still stale and servable, its promise is still set although its executor is gone, and
  a further call does not invoke \<open>f\<close>: the invocations are the same two with and without
  that call.
\<close>

theorem failed_renewal_is_not_retried:
  "isExpired (mclock (mrun 1000 (minit 0)
       [Call [JNum 7], Fulfil 0 (JNum 1), Tick 1100, Call [JNum 7], Reject 1, Tick 5000]))
     (Some 0) 1000 \<and>
   caches (mrun 1000 (minit 0)
       [Call [JNum 7], Fulfil 0 (JNum 1), Tick 1100, Call [JNum 7], Reject 1, Tick 5000]) ''[7]''
     = Some \<lparr>e_at = Some 0, e_promise = Some 1, e_value = JNum 1\<rparr> \<and>
   awaiting (mrun 1000 (minit 0)
       [Call [JNum 7], Fulfil 0 (JNum 1), Tick 1100, Call [JNum 7], Reject 1, Tick 5000]) 1 = None \<and>
   invocations (mrun 1000 (minit 0)
       [Call [JNum 7], Fulfil 0 (JNum 1), Tick 1100, Call [JNum 7], Reject 1, Tick 5000])
     = [[JNum 7], [JNum 7]] \<and>
   invocations (mrun 1000 (minit 0)
       [Call [JNum 7], Fulfil 0 (JNum 1), Tick 1100, Call [JNum 7], Reject 1, Tick 5000,
        Call [JNum 7]])
     = [[JNum 7], [JNum 7]]"
  by (simp add: mem_eval)

text \<open>
  C3 (failure of a renewal), as amended.  Let the renewal of a record be in flight in a
  reachable state, and let it fail.  Then, whatever happens afterwards, the entry keeps
  its value and its \<^verbatim>\<open>at\<close>, and keeps the promise of the failed renewal; a call for the
  key changes nothing, so that no renewal is started and \<open>f\<close> is not invoked for the key
  again; and a truthy value is still returned.
\<close>

theorem failed_renewal_keeps_record:
  assumes reach: "s = mrun timeMs (minit t0) evs0"
    and flight: "awaiting s p = Some c"
    and stale: "caches s (c_key c) = Some e" "e_at e = Some a"
    and later: "s' = mrun timeMs (f_rejected s p) evs"
    and args: "JSON_stringify args = c_key c"
  shows "caches s' (c_key c) = Some e \<and> e_promise e = Some p \<and> awaiting s' p = None \<and>
         snd (memoryCache timeMs s' args) = s' \<and>
         (truthy (e_value e) \<longrightarrow> fst (memoryCache timeMs s' args) = Returned (e_value e)) \<and>
         key_invocations s' (c_key c) = key_invocations s (c_key c)"
proof -
  have inv: "minv s" using reach minv_reachable by simp
  from rejected_dead [OF inv flight] stale(1)
  have d0: "dead (f_rejected s p) (c_key c) e p"
    and i0: "key_invocations (f_rejected s p) (c_key c) = key_invocations s (c_key c)" by auto
  from dead_run [OF d0, of timeMs evs] later
  have d: "dead s' (c_key c) e p"
    and i: "key_invocations s' (c_key c) = key_invocations (f_rejected s p) (c_key c)"
    by simp_all
  have "snd (memoryCache timeMs s' args) = s'" using dead_call_same [OF d args] .
  moreover have "truthy (e_value e) \<longrightarrow> fst (memoryCache timeMs s' args) = Returned (e_value e)"
    using d args by (auto simp: dead_def memoryCache_def)
  ultimately show ?thesis using d i i0 by (simp add: dead_def)
qed

theorem failed_renewal_keeps_record_witness:
  "awaiting (mrun 1000 (minit 0) [Call [JNum 7], Fulfil 0 (JNum 1), Tick 1100, Call [JNum 7]]) 1 =
     Some \<lparr>c_key = ''[7]'', c_args = [JNum 7], c_at = 1100, c_hasOldCache = True\<rparr> \<and>
   caches (mrun 1000 (minit 0) [Call [JNum 7], Fulfil 0 (JNum 1), Tick 1100, Call [JNum 7]]) ''[7]'' =
     Some \<lparr>e_at = Some 0, e_promise = Some 1, e_value = JNum 1\<rparr> \<and>
   caches (mrun 1000 (f_rejected
       (mrun 1000 (minit 0) [Call [JNum 7], Fulfil 0 (JNum 1), Tick 1100, Call [JNum 7]]) 1)
       [Tick 5000, Call [JNum 7]]) ''[7]'' =
     Some \<lparr>e_at = Some 0, e_promise = Some 1, e_value = JNum 1\<rparr> \<and>
   fst (memoryCache 1000 (mrun 1000 (f_rejected
       (mrun 1000 (minit 0) [Call [JNum 7], Fulfil 0 (JNum 1), Tick 1100, Call [JNum 7]]) 1)
       [Tick 5000, Call [JNum 7]]) [JNum 7]) = Returned (JNum 1) \<and>
   key_invocations (mrun 1000 (f_rejected
       (mrun 1000 (minit 0) [Call [JNum 7], Fulfil 0 (JNum 1), Tick 1100, Call [JNum 7]]) 1)
       [Tick 5000, Call [JNum 7]]) ''[7]'' = [[JNum 7], [JNum 7]]"
proof -
  let ?s = "mrun 1000 (minit 0) [Call [JNum 7], Fulfil 0 (JNum 1), Tick 1100, Call [JNum 7]]"
  let ?c = "\<lparr>c_key = ''[7]'', c_args = [JNum 7], c_at = 1100, c_hasOldCache = True\<rparr>"
  let ?e = "\<lparr>e_at = Some 0, e_promise = Some 1, e_value = JNum 1\<rparr>"
  have h1: "awaiting ?s 1 = Some ?c" by (simp add: mem_eval)
  have h2: "caches ?s (c_key ?c) = Some ?e" by (simp add: mem_eval)
  have h3: "e_at ?e = Some 0" by simp
  have h4: "JSON_stringify [JNum 7] = c_key ?c" by (simp add: mem_eval)
  have h5: "key_invocations ?s ''[7]'' = [[JNum 7], [JNum 7]]" by (simp add: mem_eval)
  from failed_renewal_keeps_record [OF refl h1 h2 h3 refl h4, of "[Tick 5000, Call [JNum 7]]"]
    h1 h2 h5
  show ?thesis by simp
qed

subsection \<open>Serving a stale record\<close>

text \<open>
  A stale record with a truthy value and no promise: the call starts the renewal, and the
  promise it returns is resolved with the old value at once.
\<close>

lemma stale_truthy_served_at_once:
  assumes "caches s (JSON_stringify args) = Some e" "e_at e = Some a" "mclock s - a > timeMs"
    "e_promise e = None" "truthy (e_value e)"
  shows "fst (memoryCache timeMs s args) = Following (length (promises s)) \<and>
         outcome (snd (memoryCache timeMs s args)) (fst (memoryCache timeMs s args))
           = Resolved (e_value e) \<and>
         invocations (snd (memoryCache timeMs s args)) = invocations s @ [args]"
  using assms by (simp add: memoryCache_def isExpired_def executor_def Let_def outcome_def)

text \<open>
  A stale record with a falsy value and no promise: the call starts the renewal, and the
  promise it returns is pending.
\<close>

lemma stale_falsy_awaits_renewal:
  assumes "caches s (JSON_stringify args) = Some e" "e_at e = Some a" "mclock s - a > timeMs"
    "e_promise e = None" "\<not> truthy (e_value e)"
  shows "fst (memoryCache timeMs s args) = Following (length (promises s)) \<and>
         outcome (snd (memoryCache timeMs s args)) (fst (memoryCache timeMs s args)) = Pending \<and>
         invocations (snd (memoryCache timeMs s args)) = invocations s @ [args]"
  using assms by (simp add: memoryCache_def isExpired_def executor_def Let_def outcome_def)

text \<open>
  C2 (a stale record is served without waiting).  The claim: a call that finds a stale
  record and no renewal in flight returns the value of the record at once, without
  waiting for the renewal it starts.  On the code, at \<^verbatim>\<open>staleAfter = 1000\<close> with \<open>f\<close>
  resolving to \<open>0\<close>: the record \<^verbatim>\<open>{at: 0, value: 0}\<close> is stale at time 1100 and has no
  promise; the call follows the new promise \<open>1\<close>, which is pending, since
  \<^verbatim>\<open>hasOldCache\<close> is the falsy value itself; the caller is resolved only when the
  renewal is done, and then with the new value \<open>5\<close>.
\<close>

theorem stale_falsy_value_is_withheld:
  "caches (mrun 1000 (minit 0) [Call [JNum 7], Fulfil 0 (JNum 0), Tick 1100]) ''[7]''
     = Some \<lparr>e_at = Some 0, e_promise = None, e_value = JNum 0\<rparr> \<and>
   isExpired (mclock (mrun 1000 (minit 0) [Call [JNum 7], Fulfil 0 (JNum 0), Tick 1100]))
     (Some 0) 1000 \<and>
   fst (memoryCache 1000 (mrun 1000 (minit 0) [Call [JNum 7], Fulfil 0 (JNum 0), Tick 1100])
     [JNum 7]) = Following 1 \<and>
   outcome (mrun 1000 (minit 0) [Call [JNum 7], Fulfil 0 (JNum 0), Tick 1100, Call [JNum 7]])
     (Following 1) = Pending \<and>
   outcome (mrun 1000 (minit 0)
       [Call [JNum 7], Fulfil 0 (JNum 0), Tick 1100, Call [JNum 7], Tick 50, Fulfil 1 (JNum 5)])
     (Following 1) = Resolved (JNum 5)"
  by (simp add: mem_eval)

section \<open>Claims about the distributed cache\<close>

subsection \<open>Serving a stale record\<close>

text \<open>
  C8 (a failed background renewal is not surfaced).  Let a call of the distributed cache
  read a stale record with the value \<open>v\<close> in a reachable state.  Its resumption starts a
  renewal that no call awaits, and whatever happens afterwards, the failure of the lock,
  of \<open>f\<close> or of the write included, the promise of the call is resolved with \<open>v\<close>.
\<close>

theorem stale_caller_keeps_stale_value:
  assumes reach: "s = rrun cacheKey timeMs (rinit t0 st) evs0"
    and rd: "reading s c = Some args"
    and rec: "store s (redis_key cacheKey args) = Some (Parsed at v)"
    and stale: "isExpired (rclock s) at timeMs"
  shows "renewals (rstep cacheKey timeMs s (GetReply c)) = renewals s @
           [\<lparr>r_key = redis_key cacheKey args, r_args = args, r_stage = Locking, r_lock = None,
             r_waiter = None\<rparr>] \<and>
         callers (rrun cacheKey timeMs (rstep cacheKey timeMs s (GetReply c)) evs) ! c = Resolved v"
proof -
  have inv: "rinv s" using reach rinv_reachable by simp
  let ?s1 = "rstep cacheKey timeMs s (GetReply c)"
  have eq: "?s1 = s\<lparr>reading := (reading s)(c := None),
       callers := (callers s)[c := Resolved v],
       renewals := renewals s @
          [\<lparr>r_key = redis_key cacheKey args, r_args = args, r_stage = Locking, r_lock = None,
            r_waiter = None\<rparr>]\<rparr>"
    using resume_stale [OF inv rd rec stale] by simp
  have "c < length (callers ?s1)" "callers ?s1 ! c = Resolved v"
    using eq rinv_reader(1) [OF inv rd] by simp_all
  then have "callers (rrun cacheKey timeMs ?s1 evs) ! c = Resolved v"
    using settled_run [of c ?s1 cacheKey timeMs evs] by simp
  then show ?thesis using eq by simp
qed

theorem stale_caller_keeps_stale_value_witness:
  "reading (rrun ''ns'' 1000 (rinit 0 Map.empty)
       [RCall [JNum 7], GetReply 0, LockGranted 0, FFulfil 0 (JNum 1), SetReply 0, RTick 1100,
        RCall [JNum 7]]) 1 = Some [JNum 7] \<and>
   store (rrun ''ns'' 1000 (rinit 0 Map.empty)
       [RCall [JNum 7], GetReply 0, LockGranted 0, FFulfil 0 (JNum 1), SetReply 0, RTick 1100,
        RCall [JNum 7]]) ''ns[7]'' = Some (Parsed (Some 0) (JNum 1)) \<and>
   callers (rrun ''ns'' 1000 (rstep ''ns'' 1000 (rrun ''ns'' 1000 (rinit 0 Map.empty)
       [RCall [JNum 7], GetReply 0, LockGranted 0, FFulfil 0 (JNum 1), SetReply 0, RTick 1100,
        RCall [JNum 7]]) (GetReply 1)) [LockError 1]) ! 1 = Resolved (JNum 1) \<and>
   callers (rrun ''ns'' 1000 (rstep ''ns'' 1000 (rrun ''ns'' 1000 (rinit 0 Map.empty)
       [RCall [JNum 7], GetReply 0, LockGranted 0, FFulfil 0 (JNum 1), SetReply 0, RTick 1100,
        RCall [JNum 7]]) (GetReply 1)) [LockGranted 1, FReject 1]) ! 1 = Resolved (JNum 1) \<and>
   callers (rrun ''ns'' 1000 (rstep ''ns'' 1000 (rrun ''ns'' 1000 (rinit 0 Map.empty)
       [RCall [JNum 7], GetReply 0, LockGranted 0, FFulfil 0 (JNum 1), SetReply 0, RTick 1100,
        RCall [JNum 7]]) (GetReply 1)) [LockGranted 1, FFulfil 1 (JNum 2), SetError 1]) ! 1
     = Resolved (JNum 1)"
proof -
  let ?s = "rrun ''ns'' 1000 (rinit 0 Map.empty)
       [RCall [JNum 7], GetReply 0, LockGranted 0, FFulfil 0 (JNum 1), SetReply 0, RTick 1100,
        RCall [JNum 7]]"
  have h1: "reading ?s 1 = Some [JNum 7]" by (simp add: red_eval)
  have h2: "store ?s (redis_key ''ns'' [JNum 7]) = Some (Parsed (Some 0) (JNum 1))"
    by (simp add: red_eval)
  have h3: "isExpired (rclock ?s) (Some 0) 1000" by (simp add: red_eval)
  have k: "redis_key ''ns'' [JNum 7] = ''ns[7]''" by (simp add: red_eval)
  from stale_caller_keeps_stale_value [OF refl h1 h2 h3, of "[LockError 1]"]
    stale_caller_keeps_stale_value [OF refl h1 h2 h3, of "[LockGranted 1, FReject 1]"]
    stale_caller_keeps_stale_value [OF refl h1 h2 h3,
      of "[LockGranted 1, FFulfil 1 (JNum 2), SetError 1]"]
    h1 h2 k
  show ?thesis by simp
qed

subsection \<open>Mutual exclusion\<close>

text \<open>
  The order of the steps of a renewal: \<open>f\<close> is invoked only in the step that grants the
  lock to the renewal, and the store changes only in the step that ends the write of a
  renewal, which is also the step that releases its lock.
\<close>

lemma f_invoked_only_under_lock:
  assumes "finvocations (rstep cacheKey timeMs s ev) \<noteq> finvocations s"
  shows "\<exists>r. ev = LockGranted r \<and> r < length (renewals s) \<and>
           r_stage (renewals s ! r) = Locking \<and>
           locks (rstep cacheKey timeMs s ev) (lock_name (r_key (renewals s ! r))) =
             Some (r, rclock s + lease_ms)"
proof (cases ev)
  case (GetReply c')
  then show ?thesis using assms
    by (auto simp: redisCache_resume_def Let_def renewRedisCache_def
        split: option.splits stored.splits if_splits)
next
  case (LockGranted r)
  then show ?thesis using assms by (auto simp: lock_granted_def Let_def acquire_def split: if_splits)
next
  case (SetReply r)
  then show ?thesis using assms
    by (auto simp: set_done_def Let_def redis_set_def release_def set_stage_def
        split: stage.splits option.splits if_splits)
qed (use assms in \<open>auto simp: redisCache_call_def redisCache_get_error_def lock_error_def
      f_done_def f_failed_def set_error_def abort_def set_stage_def
      split: option.splits stage.splits if_splits\<close>)

lemma lock_released_only_after_write:
  assumes "locks s n = Some (r, l)" "locks (rstep cacheKey timeMs s ev) n = None"
  shows "ev = SetReply r \<and> r < length (renewals s) \<and>
         (\<exists>v a. r_stage (renewals s ! r) = Writing v a)"
proof (cases ev)
  case (GetReply c')
  then show ?thesis using assms
    by (auto simp: redisCache_resume_def Let_def renewRedisCache_def
        split: option.splits stored.splits if_splits)
next
  case (LockGranted r')
  then show ?thesis using assms by (auto simp: lock_granted_def Let_def acquire_def split: if_splits)
next
  case (SetReply r')
  then show ?thesis using assms
    by (auto simp: set_done_def Let_def redis_set_def release_def set_stage_def
        split: stage.splits option.splits if_splits)
qed (use assms in \<open>auto simp: redisCache_call_def redisCache_get_error_def lock_error_def
      f_done_def f_failed_def set_error_def abort_def set_stage_def
      split: option.splits stage.splits if_splits\<close>)

text \<open>
  The claim C10 fails on the code when a renewal outlives its lease of three minutes.
  The first renewal is granted the lock at time 0; at time 180000 its lease has expired
  and a second renewal of the same key is granted the lock.  Both computations end and
  both writes are under way at once; the second write is done first, and the store ends
  with the value of the first computation.
\<close>

theorem expired_lease_interleaves_writes:
  "r_stage (renewals (rrun ''ns'' 1000 (rinit 0 Map.empty)
       [RCall [JNum 7], GetReply 0, LockGranted 0, RTick 180000, RCall [JNum 7], GetReply 1,
        LockGranted 1, FFulfil 0 (JNum 1), FFulfil 1 (JNum 2)]) ! 0) = Writing (JNum 1) 180000 \<and>
   r_stage (renewals (rrun ''ns'' 1000 (rinit 0 Map.empty)
       [RCall [JNum 7], GetReply 0, LockGranted 0, RTick 180000, RCall [JNum 7], GetReply 1,
        LockGranted 1, FFulfil 0 (JNum 1), FFulfil 1 (JNum 2)]) ! 1) = Writing (JNum 2) 180000 \<and>
   r_key (renewals (rrun ''ns'' 1000 (rinit 0 Map.empty)
       [RCall [JNum 7], GetReply 0, LockGranted 0, RTick 180000, RCall [JNum 7], GetReply 1,
        LockGranted 1, FFulfil 0 (JNum 1), FFulfil 1 (JNum 2)]) ! 0) = ''ns[7]'' \<and>
   r_key (renewals (rrun ''ns'' 1000 (rinit 0 Map.empty)
       [RCall [JNum 7], GetReply 0, LockGranted 0, RTick 180000, RCall [JNum 7], GetReply 1,
        LockGranted 1, FFulfil 0 (JNum 1), FFulfil 1 (JNum 2)]) ! 1) = ''ns[7]'' \<and>
   store (rrun ''ns'' 1000 (rinit 0 Map.empty)
       [RCall [JNum 7], GetReply 0, LockGranted 0, RTick 180000, RCall [JNum 7], GetReply 1,
        LockGranted 1, FFulfil 0 (JNum 1), FFulfil 1 (JNum 2), SetReply 1, SetReply 0]) ''ns[7]''
     = Some (Parsed (Some 180000) (JNum 1))"
  by (simp add: red_eval)

text \<open>
  C10 (mutual exclusion of the renewals), as amended.  In every reachable state, two
  different renewals of one key that are both between the grant of the lock and the end
  of the write have each acquired the lock, and the lease of one of them has expired: the
  critical sections of two renewals, and with them their writes, do not overlap as long
  as no renewal outlives its lease.  Within a renewal, \<open>f\<close> is invoked only in the step
  that grants it the lock, the store is written only at the end of the write of a renewal
  that has acquired the lock, and a lock that is held is released only at the end of the
  write of its holder.
\<close>

theorem renewals_exclusive_within_lease:
  assumes reach: "s = rrun cacheKey timeMs (rinit t0 st) evs"
  shows "(ra < length (renewals s) \<and> rb < length (renewals s) \<and> ra \<noteq> rb \<and>
          r_key (renewals s ! ra) = r_key (renewals s ! rb) \<and>
          in_critical (renewals s ! ra) \<and> in_critical (renewals s ! rb) \<longrightarrow>
          (\<exists>la lb. r_lock (renewals s ! ra) = Some la \<and> r_lock (renewals s ! rb) = Some lb \<and>
             (la \<le> rclock s \<or> lb \<le> rclock s))) \<and>
         (finvocations (rstep cacheKey timeMs s ev) \<noteq> finvocations s \<longrightarrow>
          (\<exists>r. ev = LockGranted r \<and>
             locks (rstep cacheKey timeMs s ev) (lock_name (r_key (renewals s ! r))) =
               Some (r, rclock s + lease_ms))) \<and>
         (store (rstep cacheKey timeMs s ev) \<noteq> store s \<longrightarrow>
          (\<exists>r v a l. ev = SetReply r \<and> r_stage (renewals s ! r) = Writing v a \<and>
             r_lock (renewals s ! r) = Some l)) \<and>
         (locks s n = Some (r, l) \<and> locks (rstep cacheKey timeMs s ev) n = None \<longrightarrow>
          ev = SetReply r)"
proof -
  have inv: "linv s" using reach linv_reachable by simp
  have 1: "\<exists>la lb. r_lock (renewals s ! ra) = Some la \<and> r_lock (renewals s ! rb) = Some lb \<and>
             (la \<le> rclock s \<or> lb \<le> rclock s)"
    if ra: "ra < length (renewals s)" "in_critical (renewals s ! ra)"
      and rb: "rb < length (renewals s)" "in_critical (renewals s ! rb)"
      and same: "r_key (renewals s ! ra) = r_key (renewals s ! rb)"
      and ne: "ra \<noteq> rb"
  proof -
    from inv ra obtain la where la: "r_lock (renewals s ! ra) = Some la"
      "locks s (lock_name (r_key (renewals s ! ra))) = Some (ra, la) \<or> la \<le> rclock s"
      unfolding linv_def by blast
    from inv rb obtain lb where lb: "r_lock (renewals s ! rb) = Some lb"
      "locks s (lock_name (r_key (renewals s ! rb))) = Some (rb, lb) \<or> lb \<le> rclock s"
      unfolding linv_def by blast
    have "la \<le> rclock s \<or> lb \<le> rclock s" using la(2) lb(2) same ne by auto
    then show ?thesis using la(1) lb(1) by blast
  qed
  have 2: "\<exists>r. ev = LockGranted r \<and>
             locks (rstep cacheKey timeMs s ev) (lock_name (r_key (renewals s ! r))) =
               Some (r, rclock s + lease_ms)"
    if "finvocations (rstep cacheKey timeMs s ev) \<noteq> finvocations s"
    using f_invoked_only_under_lock [OF that] by blast
  have 3: "\<exists>r v a l. ev = SetReply r \<and> r_stage (renewals s ! r) = Writing v a \<and>
             r_lock (renewals s ! r) = Some l"
    if "store (rstep cacheKey timeMs s ev) \<noteq> store s"
  proof -
    from store_changes_only_by_write [OF that]
    obtain r v a where w: "ev = SetReply r" "r < length (renewals s)"
      "r_stage (renewals s ! r) = Writing v a" by blast
    then have "in_critical (renewals s ! r)" by (simp add: in_critical_def)
    with inv w(2) obtain l where "r_lock (renewals s ! r) = Some l" unfolding linv_def by blast
    with w show ?thesis by blast
  qed
  have 4: "ev = SetReply r" if "locks s n = Some (r, l)" "locks (rstep cacheKey timeMs s ev) n = None"
    using lock_released_only_after_write [OF that] by blast
  show ?thesis using 1 2 3 4 by blast
qed

theorem renewals_exclusive_within_lease_witness:
  "in_critical (renewals (rrun ''ns'' 1000 (rinit 0 Map.empty)
       [RCall [JNum 7], GetReply 0, LockGranted 0, RTick 180000, RCall [JNum 7], GetReply 1,
        LockGranted 1]) ! 0) \<and>
   in_critical (renewals (rrun ''ns'' 1000 (rinit 0 Map.empty)
       [RCall [JNum 7], GetReply 0, LockGranted 0, RTick 180000, RCall [JNum 7], GetReply 1,
        LockGranted 1]) ! 1) \<and>
   rclock (rrun ''ns'' 1000 (rinit 0 Map.empty)
       [RCall [JNum 7], GetReply 0, LockGranted 0, RTick 180000, RCall [JNum 7], GetReply 1,
        LockGranted 1]) = 180000 \<and>
   (\<exists>la lb. r_lock (renewals (rrun ''ns'' 1000 (rinit 0 Map.empty)
       [RCall [JNum 7], GetReply 0, LockGranted 0, RTick 180000, RCall [JNum 7], GetReply 1,
        LockGranted 1]) ! 0) = Some la \<and>
     r_lock (renewals (rrun ''ns'' 1000 (rinit 0 Map.empty)
       [RCall [JNum 7], GetReply 0, LockGranted 0, RTick 180000, RCall [JNum 7], GetReply 1,
        LockGranted 1]) ! 1) = Some lb \<and>
     (la \<le> 180000 \<or> lb \<le> 180000)) \<and>
   finvocations (rstep ''ns'' 1000
       (rrun ''ns'' 1000 (rinit 0 Map.empty) [RCall [JNum 7], GetReply 0]) (LockGranted 0))
     = [[JNum 7]] \<and>
   locks (rstep ''ns'' 1000
       (rrun ''ns'' 1000 (rinit 0 Map.empty) [RCall [JNum 7], GetReply 0]) (LockGranted 0))
     ''ns[7]-lock'' = Some (0, 180000) \<and>
   store (rstep ''ns'' 1000 (rrun ''ns'' 1000 (rinit 0 Map.empty)
       [RCall [JNum 7], GetReply 0, LockGranted 0, FFulfil 0 (JNum 1)]) (SetReply 0)) ''ns[7]''
     = Some (Parsed (Some 0) (JNum 1)) \<and>
   locks (rrun ''ns'' 1000 (rinit 0 Map.empty)
       [RCall [JNum 7], GetReply 0, LockGranted 0, FFulfil 0 (JNum 1)]) ''ns[7]-lock''
     = Some (0, 180000) \<and>
   locks (rstep ''ns'' 1000 (rrun ''ns'' 1000 (rinit 0 Map.empty)
       [RCall [JNum 7], GetReply 0, LockGranted 0, FFulfil 0 (JNum 1)]) (SetReply 0))
     ''ns[7]-lock'' = None"
proof -
  let ?a = "rrun ''ns'' 1000 (rinit 0 Map.empty)
       [RCall [JNum 7], GetReply 0, LockGranted 0, RTick 180000, RCall [JNum 7], GetReply 1,
        LockGranted 1]"
  let ?b = "rrun ''ns'' 1000 (rinit 0 Map.empty) [RCall [JNum 7], GetReply 0]"
  let ?c = "rrun ''ns'' 1000 (rinit 0 Map.empty)
       [RCall [JNum 7], GetReply 0, LockGranted 0, FFulfil 0 (JNum 1)]"
  have a: "0 < length (renewals ?a) \<and> 1 < length (renewals ?a) \<and> (0::nat) \<noteq> 1 \<and>
      r_key (renewals ?a ! 0) = r_key (renewals ?a ! 1) \<and>
      in_critical (renewals ?a ! 0) \<and> in_critical (renewals ?a ! 1)"
    by (simp add: red_eval)
  have a': "rclock ?a = 180000" by (simp add: red_eval)
  have b: "finvocations (rstep ''ns'' 1000 ?b (LockGranted 0)) \<noteq> finvocations ?b"
    by (simp add: red_eval)
  have b': "finvocations (rstep ''ns'' 1000 ?b (LockGranted 0)) = [[JNum 7]]"
    "lock_name (r_key (renewals ?b ! 0)) = ''ns[7]-lock''" "rclock ?b + lease_ms = 180000"
    by (simp_all add: red_eval)
  have c0: "store (rstep ''ns'' 1000 ?c (SetReply 0)) ''ns[7]'' = Some (Parsed (Some 0) (JNum 1))"
    "store ?c ''ns[7]'' = None"
    by (simp_all add: red_eval)
  then have c: "store (rstep ''ns'' 1000 ?c (SetReply 0)) \<noteq> store ?c" by auto
  have d: "locks ?c ''ns[7]-lock'' = Some (0, 180000) \<and>
      locks (rstep ''ns'' 1000 ?c (SetReply 0)) ''ns[7]-lock'' = None"
    by (simp add: red_eval)
  from renewals_exclusive_within_lease [where s = ?a and ra = 0 and rb = 1, OF refl]
    a a'
  have A: "\<exists>la lb. r_lock (renewals ?a ! 0) = Some la \<and> r_lock (renewals ?a ! 1) = Some lb \<and>
     (la \<le> 180000 \<or> lb \<le> 180000)" by simp
  from renewals_exclusive_within_lease [where s = ?b and ev = "LockGranted 0", OF refl] b b'
  have B: "locks (rstep ''ns'' 1000 ?b (LockGranted 0)) ''ns[7]-lock'' = Some (0, 180000)"
    by auto
  from renewals_exclusive_within_lease [where s = ?c and ev = "SetReply 0"
      and n = "''ns[7]-lock''" and r = 0 and l = 180000, OF refl] c d
  have C: "\<exists>v a l. r_stage (renewals ?c ! 0) = Writing v a \<and> r_lock (renewals ?c ! 0) = Some l"
    by auto
  from a a' A b' B c0 d show ?thesis by simp
qed

section \<open>Claims about both caches\<close>

subsection \<open>A fresh record\<close>



subsection \<open>Failure of a cold load\<close>

text \<open>
  The number of rejections nobody handles never goes down, and a failure that stops a
  renewal adds one to it.
\<close>

lemma unhandled_step: "unhandled s \<le> unhandled (mstep timeMs s ev)"
  by (cases ev)
    (auto simp: memoryCache_def executor_def Let_def f_fulfilled_def f_rejected_def
      split: option.splits)

lemma unhandled_run: "unhandled s \<le> unhandled (mrun timeMs s evs)"
proof (induction evs arbitrary: s)
  case Nil
  then show ?case by (simp add: mrun_def)
next
  case (Cons ev evs)
  have "unhandled s \<le> unhandled (mstep timeMs s ev)" by (rule unhandled_step)
  also have "\<dots> \<le> unhandled (mrun timeMs (mstep timeMs s ev) evs)" by (rule Cons.IH)
  finally show ?case by (simp add: mrun_def)
qed

lemma runhandled_step: "runhandled s \<le> runhandled (rstep cacheKey timeMs s ev)"
proof (cases ev)
  case (GetReply c')
  then show ?thesis
    by (auto simp: redisCache_resume_def Let_def renewRedisCache_def
        split: option.splits stored.splits)
next
  case (SetReply r)
  then show ?thesis
    by (auto simp: set_done_def Let_def redis_set_def release_def set_stage_def
        split: stage.splits option.splits)
qed (auto simp: redisCache_call_def redisCache_get_error_def lock_granted_def Let_def
      acquire_def lock_error_def f_done_def f_failed_def set_error_def abort_def set_stage_def
      split: option.splits stage.splits)

lemma runhandled_run: "runhandled s \<le> runhandled (rrun cacheKey timeMs s evs)"
proof (induction evs arbitrary: s)
  case Nil
  then show ?case by (simp add: rrun_def)
next
  case (Cons ev evs)
  have "runhandled s \<le> runhandled (rstep cacheKey timeMs s ev)" by (rule runhandled_step)
  also have "\<dots> \<le> runhandled (rrun cacheKey timeMs (rstep cacheKey timeMs s ev) evs)"
    by (rule Cons.IH)
  finally show ?case by (simp add: rrun_def)
qed

lemma fails_step:
  assumes "fails s r ev"
  shows "\<exists>e. rstep cacheKey timeMs s ev = abort s r e"
  using assms
  by (cases ev)
    (auto simp: fails_def lock_error_def f_failed_def set_error_def split: stage.splits)

lemma abort_effect:
  assumes "r < length (renewals s)"
  shows "aborted (abort s r e) r" "waiter (abort s r e) r = waiter s r"
    "runhandled (abort s r e) = runhandled s + 1"
  using assms by (simp_all add: abort_def set_stage_def aborted_def waiter_def)

text \<open>
  The claim C4 fails on the code.  In the memory cache a cold call follows the new
  promise, and after the rejection of \<open>f\<close> that promise is pending, not rejected; the
  rejection is handled by nobody.  In the distributed cache the promise of a cold call
  is pending after the failure of the lock, of \<open>f\<close>, or of the write.
\<close>

theorem cold_failure_is_not_rejected:
  "fst (memoryCache 1000 (minit 0) [JNum 7]) = Following 0 \<and>
   outcome (mrun 1000 (minit 0) [Call [JNum 7], Reject 0]) (Following 0) = Pending \<and>
   unhandled (mrun 1000 (minit 0) [Call [JNum 7], Reject 0]) = 1 \<and>
   callers (rrun ''ns'' 1000 (rinit 0 Map.empty) [RCall [JNum 7], GetReply 0, LockError 0])
     = [Pending] \<and>
   callers (rrun ''ns'' 1000 (rinit 0 Map.empty)
       [RCall [JNum 7], GetReply 0, LockGranted 0, FReject 0]) = [Pending] \<and>
   callers (rrun ''ns'' 1000 (rinit 0 Map.empty)
       [RCall [JNum 7], GetReply 0, LockGranted 0, FFulfil 0 (JNum 1), SetError 0]) = [Pending]"
  by (simp add: mem_eval red_eval)

text \<open>
  C4 (failure of a cold load), as amended.  When the computation of a cold load fails in
  the memory cache, or the renewal awaited by a cold call of the distributed cache is
  stopped by a rejection (of the lock, of \<open>f\<close> or of the write), the failure does not
  reach the caller: whatever happens afterwards, the promise of the caller is pending.
  The rejection is left unhandled: it is counted among the rejections nobody handles
  when it occurs, and stays counted.
\<close>

theorem cold_failure_leaves_caller_pending:
  assumes mreach: "m = mrun timeMs (minit t0) evs0"
    and flight: "awaiting m p = Some k"
    and cold: "caches m (c_key k) = Some e" "e_at e = None"
    and rreach: "s = rrun cacheKey timeMs (rinit t1 st) evs1"
    and w: "waiter s r = Some c" and fl: "fails s r ev"
  shows "outcome (mrun timeMs (f_rejected m p) evs) (Following p) = Pending \<and>
         unhandled (f_rejected m p) = unhandled m + 1 \<and>
         unhandled m + 1 \<le> unhandled (mrun timeMs (f_rejected m p) evs) \<and>
         aborted (rstep cacheKey timeMs s ev) r \<and>
         callers (rrun cacheKey timeMs (rstep cacheKey timeMs s ev) evs') ! c = Pending \<and>
         runhandled (rstep cacheKey timeMs s ev) = runhandled s + 1 \<and>
         runhandled s + 1 \<le> runhandled (rrun cacheKey timeMs (rstep cacheKey timeMs s ev) evs')"
proof -
  have inv: "minv m" using mreach minv_reachable by simp
  from rejected_dead [OF inv flight] cold(1)
  have d0: "dead (f_rejected m p) (c_key k) e p"
    and p0: "promises (f_rejected m p) = promises m"
    and pend: "\<not> truthy (e_value e) \<longrightarrow> promises m ! p = Pending" by auto
  have und: "e_value e = JUndefined" using inv cold unfolding minv_def by blast
  from dead_run [OF d0, of timeMs evs]
  have d: "dead (mrun timeMs (f_rejected m p) evs) (c_key k) e p"
    and pr: "promises (mrun timeMs (f_rejected m p) evs) ! p = promises (f_rejected m p) ! p"
    by simp_all
  have 1: "outcome (mrun timeMs (f_rejected m p) evs) (Following p) = Pending"
    using d pr p0 pend und by (simp add: outcome_def dead_def)
  have 2: "unhandled (f_rejected m p) = unhandled m + 1"
    using flight by (simp add: f_rejected_def)
  have 3: "unhandled m + 1 \<le> unhandled (mrun timeMs (f_rejected m p) evs)"
    using unhandled_run [of "f_rejected m p" timeMs evs] 2 by simp
  let ?s1 = "rstep cacheKey timeMs s ev"
  have r: "r < length (renewals s)" using fl by (simp add: fails_def)
  obtain f where s1: "?s1 = abort s r f" using fails_step [OF fl] by blast
  have 4: "aborted ?s1 r" and w1: "waiter ?s1 r = Some c"
    and 6: "runhandled ?s1 = runhandled s + 1"
    using abort_effect [OF r, of f] w s1 by simp_all
  have "rinv s" using rreach rinv_reachable by simp
  then have "rinv ?s1" by (rule rinv_step)
  then have "orphan ?s1 c" using w1 4 by (rule aborted_orphan)
  then have "orphan (rrun cacheKey timeMs ?s1 evs') c" by (rule orphan_run)
  then have 5: "callers (rrun cacheKey timeMs ?s1 evs') ! c = Pending" by (simp add: orphan_def)
  have 7: "runhandled s + 1 \<le> runhandled (rrun cacheKey timeMs ?s1 evs')"
    using runhandled_run [of ?s1 cacheKey timeMs evs'] 6 by simp
  from 1 2 3 4 5 6 7 show ?thesis by blast
qed

theorem cold_failure_leaves_caller_pending_witness:
  "awaiting (mrun 1000 (minit 0) [Call [JNum 7]]) 0 =
     Some \<lparr>c_key = ''[7]'', c_args = [JNum 7], c_at = 0, c_hasOldCache = False\<rparr> \<and>
   caches (mrun 1000 (minit 0) [Call [JNum 7]]) ''[7]'' =
     Some \<lparr>e_at = None, e_promise = Some 0, e_value = JUndefined\<rparr> \<and>
   outcome (mrun 1000 (f_rejected (mrun 1000 (minit 0) [Call [JNum 7]]) 0)
       [Tick 5000, Call [JNum 7]]) (Following 0) = Pending \<and>
   unhandled (f_rejected (mrun 1000 (minit 0) [Call [JNum 7]]) 0) = 1 \<and>
   waiter (rrun ''ns'' 1000 (rinit 0 Map.empty) [RCall [JNum 7], GetReply 0]) 0 = Some 0 \<and>
   fails (rrun ''ns'' 1000 (rinit 0 Map.empty) [RCall [JNum 7], GetReply 0]) 0 (LockError 0) \<and>
   fails (rrun ''ns'' 1000 (rinit 0 Map.empty) [RCall [JNum 7], GetReply 0, LockGranted 0])
     0 (FReject 0) \<and>
   fails (rrun ''ns'' 1000 (rinit 0 Map.empty)
       [RCall [JNum 7], GetReply 0, LockGranted 0, FFulfil 0 (JNum 1)]) 0 (SetError 0) \<and>
   callers (rrun ''ns'' 1000 (rstep ''ns'' 1000
       (rrun ''ns'' 1000 (rinit 0 Map.empty) [RCall [JNum 7], GetReply 0]) (LockError 0))
       [RTick 200000, RCall [JNum 7], GetReply 1, LockGranted 1, FFulfil 1 (JNum 1), SetReply 1])
     ! 0 = Pending \<and>
   callers (rrun ''ns'' 1000 (rstep ''ns'' 1000
       (rrun ''ns'' 1000 (rinit 0 Map.empty) [RCall [JNum 7], GetReply 0, LockGranted 0])
       (FReject 0))
       [RTick 200000, RCall [JNum 7], GetReply 1, LockGranted 1, FFulfil 1 (JNum 1), SetReply 1])
     ! 0 = Pending \<and>
   callers (rrun ''ns'' 1000 (rstep ''ns'' 1000
       (rrun ''ns'' 1000 (rinit 0 Map.empty)
          [RCall [JNum 7], GetReply 0, LockGranted 0, FFulfil 0 (JNum 1)]) (SetError 0))
       [RTick 200000, RCall [JNum 7], GetReply 1, LockGranted 1, FFulfil 1 (JNum 1), SetReply 1])
     ! 0 = Pending \<and>
   runhandled (rstep ''ns'' 1000
       (rrun ''ns'' 1000 (rinit 0 Map.empty) [RCall [JNum 7], GetReply 0, LockGranted 0])
       (FReject 0)) = 1"
proof -
  let ?m = "mrun 1000 (minit 0) [Call [JNum 7]]"
  let ?k = "\<lparr>c_key = ''[7]'', c_args = [JNum 7], c_at = 0, c_hasOldCache = False\<rparr>"
  let ?e = "\<lparr>e_at = None, e_promise = Some 0, e_value = JUndefined\<rparr>"
  let ?a = "rrun ''ns'' 1000 (rinit 0 Map.empty) [RCall [JNum 7], GetReply 0]"
  let ?b = "rrun ''ns'' 1000 (rinit 0 Map.empty) [RCall [JNum 7], GetReply 0, LockGranted 0]"
  let ?c = "rrun ''ns'' 1000 (rinit 0 Map.empty)
          [RCall [JNum 7], GetReply 0, LockGranted 0, FFulfil 0 (JNum 1)]"
  let ?later = "[RTick 200000, RCall [JNum 7], GetReply 1, LockGranted 1, FFulfil 1 (JNum 1),
      SetReply 1]"
  have h1: "awaiting ?m 0 = Some ?k" by (simp add: mem_eval)
  have h2: "caches ?m (c_key ?k) = Some ?e" by (simp add: mem_eval)
  have h3: "e_at ?e = None" by simp
  have u: "unhandled ?m = 0" by (simp add: mem_eval)
  have wa: "waiter ?a 0 = Some 0" and fa: "fails ?a 0 (LockError 0)"
    by (simp_all add: red_eval fails_def)
  have wb: "waiter ?b 0 = Some 0" and fb: "fails ?b 0 (FReject 0)"
    and ub: "runhandled ?b = 0"
    by (simp_all add: red_eval fails_def)
  have wc: "waiter ?c 0 = Some 0" and fc: "fails ?c 0 (SetError 0)"
    by (simp_all add: red_eval fails_def)
  from cold_failure_leaves_caller_pending [OF refl h1 h2 h3 refl wa fa,
      of "[Tick 5000, Call [JNum 7]]" ?later]
  have A: "outcome (mrun 1000 (f_rejected ?m 0) [Tick 5000, Call [JNum 7]]) (Following 0) = Pending"
    "unhandled (f_rejected ?m 0) = unhandled ?m + 1"
    "callers (rrun ''ns'' 1000 (rstep ''ns'' 1000 ?a (LockError 0)) ?later) ! 0 = Pending"
    by blast+
  from cold_failure_leaves_caller_pending [OF refl h1 h2 h3 refl wb fb,
      of "[Tick 5000, Call [JNum 7]]" ?later]
  have B: "callers (rrun ''ns'' 1000 (rstep ''ns'' 1000 ?b (FReject 0)) ?later) ! 0 = Pending"
    "runhandled (rstep ''ns'' 1000 ?b (FReject 0)) = runhandled ?b + 1"
    by blast+
  from cold_failure_leaves_caller_pending [OF refl h1 h2 h3 refl wc fc,
      of "[Tick 5000, Call [JNum 7]]" ?later]
  have C: "callers (rrun ''ns'' 1000 (rstep ''ns'' 1000 ?c (SetError 0)) ?later) ! 0 = Pending"
    by blast
  have k: "c_key ?k = ''[7]''" by simp
  from h1 h2 [unfolded k] A(1) A(2) [unfolded u] wa fa fb fc A(3) B(1) C B(2) [unfolded ub]
  show ?thesis by simp
qed

subsection \<open>One computation in flight\<close>

text \<open>A call that has read no record, or a stale one, starts a renewal.\<close>

lemma resume_starts_renewal:
  assumes rd: "reading s c = Some args" and nr: "needs_renewal timeMs s (redis_key cacheKey args)"
  shows "\<exists>w. renewals (redisCache_resume cacheKey timeMs s c) = renewals s @
           [\<lparr>r_key = redis_key cacheKey args, r_args = args, r_stage = Locking, r_lock = None,
             r_waiter = w\<rparr>]"
  using assms
  by (auto simp: needs_renewal_def redisCache_resume_def Let_def redis_get_def renewRedisCache_def
      split: option.splits stored.splits)

text \<open>
  The claim C7 fails on the distributed cache, which keeps no record of the renewals in
  flight.  A second call for a key whose first renewal is computing starts a renewal of
  its own; once the first has released the lock the second invokes \<open>f\<close> again; and
  when the first outlives its lease both are computing at once.
\<close>

theorem distributed_calls_start_second_computation:
  "r_stage (renewals (rrun ''ns'' 1000 (rinit 0 Map.empty)
       [RCall [JNum 7], GetReply 0, LockGranted 0, RCall [JNum 7], GetReply 1]) ! 0) = Computing \<and>
   length (renewals (rrun ''ns'' 1000 (rinit 0 Map.empty)
       [RCall [JNum 7], GetReply 0, LockGranted 0, RCall [JNum 7], GetReply 1])) = 2 \<and>
   r_key (renewals (rrun ''ns'' 1000 (rinit 0 Map.empty)
       [RCall [JNum 7], GetReply 0, LockGranted 0, RCall [JNum 7], GetReply 1]) ! 1) =
   r_key (renewals (rrun ''ns'' 1000 (rinit 0 Map.empty)
       [RCall [JNum 7], GetReply 0, LockGranted 0, RCall [JNum 7], GetReply 1]) ! 0) \<and>
   finvocations (rrun ''ns'' 1000 (rinit 0 Map.empty)
       [RCall [JNum 7], GetReply 0, LockGranted 0, RCall [JNum 7], GetReply 1,
        FFulfil 0 (JNum 1), SetReply 0, LockGranted 1]) = [[JNum 7], [JNum 7]] \<and>
   r_stage (renewals (rrun ''ns'' 1000 (rinit 0 Map.empty)
       [RCall [JNum 7], GetReply 0, LockGranted 0, RTick 180000, RCall [JNum 7], GetReply 1,
        LockGranted 1]) ! 0) = Computing \<and>
   r_stage (renewals (rrun ''ns'' 1000 (rinit 0 Map.empty)
       [RCall [JNum 7], GetReply 0, LockGranted 0, RTick 180000, RCall [JNum 7], GetReply 1,
        LockGranted 1]) ! 1) = Computing"
  by (simp add: red_eval)

text \<open>
  C7 (at most one computation in flight), as amended.  In every reachable state of the
  memory cache, a key has at most one computation in flight, and a call for a key with a
  computation in flight changes nothing, so it starts no second one.  The distributed
  cache starts a renewal of its own for every call that finds no record or a stale one,
  whatever renewals are in flight.
\<close>

theorem single_flight_in_memory_only:
  assumes reach: "m = mrun timeMs (minit t0) evs"
    and flight: "awaiting m p = Some k"
    and rd: "reading s c = Some args'"
    and nr: "needs_renewal timeMs s (redis_key cacheKey args')"
  shows "(awaiting m q = Some k' \<and> c_key k' = c_key k \<longrightarrow> q = p) \<and>
         (JSON_stringify args = c_key k \<longrightarrow> snd (memoryCache timeMs m args) = m) \<and>
         (\<exists>w. renewals (rstep cacheKey timeMs s (GetReply c)) = renewals s @
           [\<lparr>r_key = redis_key cacheKey args', r_args = args', r_stage = Locking, r_lock = None,
             r_waiter = w\<rparr>])"
proof -
  have inv: "minv m" using reach minv_reachable by simp
  have "q = p" if "awaiting m q = Some k'" "c_key k' = c_key k"
    using minv_unique [OF inv that(1) flight that(2)] .
  moreover have "snd (memoryCache timeMs m args) = m" if "JSON_stringify args = c_key k"
  proof -
    have "tracked m p k" using inv flight unfolding minv_def by blast
    then obtain e where "caches m (c_key k) = Some e" "e_promise e = Some p"
      by (auto simp: tracked_def split: option.splits)
    then show ?thesis using that by (simp add: memoryCache_def)
  qed
  ultimately show ?thesis using resume_starts_renewal [OF rd nr] by auto
qed

theorem single_flight_in_memory_only_witness:
  "awaiting (mrun 1000 (minit 0) [Call [JNum 7]]) 0 =
     Some \<lparr>c_key = ''[7]'', c_args = [JNum 7], c_at = 0, c_hasOldCache = False\<rparr> \<and>
   snd (memoryCache 1000 (mrun 1000 (minit 0) [Call [JNum 7]]) [JNum 7]) =
     mrun 1000 (minit 0) [Call [JNum 7]] \<and>
   reading (rrun ''ns'' 1000 (rinit 0 Map.empty)
       [RCall [JNum 7], GetReply 0, LockGranted 0, RCall [JNum 7]]) 1 = Some [JNum 7] \<and>
   needs_renewal 1000 (rrun ''ns'' 1000 (rinit 0 Map.empty)
       [RCall [JNum 7], GetReply 0, LockGranted 0, RCall [JNum 7]]) ''ns[7]'' \<and>
   length (renewals (rrun ''ns'' 1000 (rinit 0 Map.empty)
       [RCall [JNum 7], GetReply 0, LockGranted 0, RCall [JNum 7]])) = 1 \<and>
   length (renewals (rstep ''ns'' 1000 (rrun ''ns'' 1000 (rinit 0 Map.empty)
       [RCall [JNum 7], GetReply 0, LockGranted 0, RCall [JNum 7]]) (GetReply 1))) = 2"
proof -
  let ?m = "mrun 1000 (minit 0) [Call [JNum 7]]"
  let ?k = "\<lparr>c_key = ''[7]'', c_args = [JNum 7], c_at = 0, c_hasOldCache = False\<rparr>"
  let ?s = "rrun ''ns'' 1000 (rinit 0 Map.empty)
       [RCall [JNum 7], GetReply 0, LockGranted 0, RCall [JNum 7]]"
  have h1: "awaiting ?m 0 = Some ?k" by (simp add: mem_eval)
  have h2: "reading ?s 1 = Some [JNum 7]" by (simp add: red_eval)
  have k: "redis_key ''ns'' [JNum 7] = ''ns[7]''" by (simp add: red_eval)
  have h3: "needs_renewal 1000 ?s (redis_key ''ns'' [JNum 7])"
    by (simp add: red_eval needs_renewal_def)
  have h4: "JSON_stringify [JNum 7] = c_key ?k" by (simp add: mem_eval)
  have h5: "length (renewals ?s) = 1" by (simp add: red_eval)
  from single_flight_in_memory_only [OF refl h1 h2 h3, of 0 ?k "[JNum 7]"] h1 h2 h3 h4 h5 k
  show ?thesis by auto
qed

subsection \<open>The cache key\<close>

text \<open>
  The claim C9 fails on the code where it says that the order of the arguments matters
  and that the serialisation is canonical: \<^verbatim>\<open>JSON.stringify\<close> writes \<^verbatim>\<open>undefined\<close> and
  \<^verbatim>\<open>null\<close> alike, so the calls with the arguments \<^verbatim>\<open>(undefined, null)\<close> and
  \<^verbatim>\<open>(null, undefined)\<close> share a key in both caches; so do \<^verbatim>\<open>NaN\<close> and \<^verbatim>\<open>null\<close>, and
  negative zero and zero.
\<close>

theorem swapped_arguments_share_a_key:
  "redis_key ''ns'' [JUndefined, JNull] = redis_key ''ns'' [JNull, JUndefined] \<and>
   JSON_stringify [JUndefined, JNull] = JSON_stringify [JNull, JUndefined] \<and>
   [JUndefined, JNull] \<noteq> [JNull, JUndefined] \<and>
   JSON_stringify [JNaN] = JSON_stringify [JNull] \<and>
   JSON_stringify [JNegZero] = JSON_stringify [JNum 0]"
  by (simp add: redis_key_def JSON_stringify_def show_int_zero)





end
